theory Spec2Isabelle
  imports Main "HOL-Library.Word" "HOL-Library.Multiset"
begin

unbundle bit_operations_syntax

section \<open>Memory pool (src/libutil/mem\_pool.c)\<close>

subsection \<open>Data model\<close>

text \<open>
  Addresses and \<open>gsize\<close> are 64-bit words, \<open>guint32\<close>/\<open>guint\<close> are 32-bit words.
  A null pointer is the word 0. Function pointers are addresses as well: a destructor is
  opaque to the pool, so calling it is recorded as an event \<open>(func, data)\<close> in a trace.
  The model assumes what the pool itself assumes of a callback: it does not reach back into
  the destructor array that is being walked.
\<close>

type_synonym addr = "64 word"
type_synonym gsize = "64 word"
type_synonym guint32 = "32 word"

datatype rspamd_mempool_chain_type =
  RSPAMD_MEMPOOL_NORMAL | RSPAMD_MEMPOOL_TMP | RSPAMD_MEMPOOL_SHARED

record pool_chain =
  chain_begin :: addr
  pos :: addr
  slice_size :: gsize

record pool_destructors =
  func :: addr
  data :: addr
  dtor_function :: string
  loc :: string

record entry_elt =
  fragmentation :: guint32
  leftover :: guint32

record rspamd_mempool_entry_point =
  src :: string
  cur_suggestion :: guint32
  cur_elts :: guint32
  elts :: "entry_elt list"

record rspamd_mempool_stat_t =
  pools_allocated :: guint32
  pools_freed :: guint32
  bytes_allocated :: guint32
  chunks_allocated :: guint32
  shared_chunks_allocated :: guint32
  oversized_chunks :: guint32
  fragmented_size :: guint32

text \<open>
  The pool: one chain list per class (head first, as \<open>LL_PREPEND\<close> builds it), the
  destructor array, the trash stack of always-malloc mode (\<open>None\<close> while the pointer is
  null) and the preferred slab size. The variables table and the tag play no part in the
  functions below and are left out.
\<close>

record rspamd_mempool_t =
  pools :: "rspamd_mempool_chain_type \<Rightarrow> pool_chain list"
  destructors :: "pool_destructors list"
  trash_stack :: "addr list option"
  elt_len :: gsize

text \<open>
  What lives outside the pool: the process-wide statistics, the entry-point row the pool
  points to (\<open>pool->entry\<close>), and the trace of destructor calls made so far.
\<close>

record mem_world =
  mem_pool_stat :: rspamd_mempool_stat_t
  entry :: rspamd_mempool_entry_point
  calls :: "(addr \<times> addr) list"

text \<open>
  Build-time and run-time constants of the platform that mem\_pool.h, config.h and libc
  provide: the minimum alignment, the size of the chain header, the page size, the
  always-malloc switch read from the environment, and the allocator's good-size function
  (\<open>None\<close> when \<open>HAVE_MALLOC_SIZE\<close> is not defined).
\<close>

record platform =
  MIN_MEM_ALIGNMENT :: gsize
  sizeof_pool_chain :: gsize
  getpagesize :: int
  always_malloc :: bool
  sys_alloc_size :: "(gsize \<Rightarrow> gsize) option"

datatype mem_error = Abort

definition ENTRY_NELTS :: nat where
  "ENTRY_NELTS = 64"

definition FIXED_POOL_SIZE :: int where
  "FIXED_POOL_SIZE = 4096"

subsection \<open>Destructor queue\<close>

definition rspamd_mempool_add_destructor_full ::
  "rspamd_mempool_t \<Rightarrow> addr \<Rightarrow> addr \<Rightarrow> string \<Rightarrow> string \<Rightarrow> rspamd_mempool_t" where
  "rspamd_mempool_add_destructor_full pool f d fn line =
     pool\<lparr>destructors := destructors pool @
       [\<lparr>func = f, data = d, dtor_function = fn, loc = line\<rparr>]\<rparr>"

text \<open>
  \<open>rspamd_mempool_replace_destructor\<close>: the first row with the same function and the old
  data gets the new data; the loop stops there.
\<close>

fun replace_first :: "addr \<Rightarrow> addr \<Rightarrow> addr \<Rightarrow> pool_destructors list \<Rightarrow> pool_destructors list" where
  "replace_first f old_data new_data [] = []"
| "replace_first f old_data new_data (t # ts) =
     (if func t = f \<and> data t = old_data
      then t\<lparr>func := f, data := new_data\<rparr> # ts
      else t # replace_first f old_data new_data ts)"

definition rspamd_mempool_replace_destructor ::
  "rspamd_mempool_t \<Rightarrow> addr \<Rightarrow> addr \<Rightarrow> addr \<Rightarrow> rspamd_mempool_t" where
  "rspamd_mempool_replace_destructor pool f old_data new_data =
     pool\<lparr>destructors := replace_first f old_data new_data (destructors pool)\<rparr>"

text \<open>
  The loop shared by \<open>rspamd_mempool_destructors_enforce\<close> and \<open>rspamd_mempool_delete\<close>:
  walk the array from index 0, call the function unless the data pointer is null.
\<close>

fun call_destructors :: "pool_destructors list \<Rightarrow> (addr \<times> addr) list \<Rightarrow> (addr \<times> addr) list" where
  "call_destructors [] tr = tr"
| "call_destructors (d # ds) tr =
     call_destructors ds (if data d \<noteq> 0 then tr @ [(func d, data d)] else tr)"

definition rspamd_mempool_destructors_enforce ::
  "rspamd_mempool_t \<Rightarrow> mem_world \<Rightarrow> rspamd_mempool_t \<times> mem_world" where
  "rspamd_mempool_destructors_enforce pool w =
     (pool\<lparr>destructors := []\<rparr>,
      w\<lparr>calls := call_destructors (destructors pool) (calls w)\<rparr>)"

subsection \<open>Slab chains and allocation\<close>

definition pool_chain_free :: "platform \<Rightarrow> pool_chain \<Rightarrow> gsize" where
  "pool_chain_free pf chain =
     (let occupied = pos chain - chain_begin chain + MIN_MEM_ALIGNMENT pf
      in if occupied <s slice_size chain then slice_size chain - occupied else 0)"

text \<open>
  Modelled from the spec: \<open>align_ptr\<close> is a macro of mem\_pool.h, which is not among the
  sources. The cursor is advanced to the next multiple of the alignment (a power of two).
\<close>

definition align_ptr :: "addr \<Rightarrow> gsize \<Rightarrow> addr" where
  "align_ptr p a = (p + (a - 1)) AND NOT (a - 1)"

definition rspamd_mempool_entry_new :: "platform \<Rightarrow> string \<Rightarrow> rspamd_mempool_entry_point" where
  "rspamd_mempool_entry_new pf l =
     \<lparr>src = take 127 l,
      cur_suggestion = word_of_int (max (getpagesize pf) FIXED_POOL_SIZE),
      cur_elts = 0,
      elts = replicate ENTRY_NELTS \<lparr>fragmentation = 0, leftover = 0\<rparr>\<rparr>"

text \<open>
  \<open>rspamd_mempool_chain_new\<close>. The argument \<open>m\<close> is what \<open>mmap\<close> or \<open>malloc\<close>
  returned for the computed total size, \<open>None\<close> when it failed (the code aborts).
\<close>

definition rspamd_mempool_chain_new ::
  "platform \<Rightarrow> gsize \<Rightarrow> rspamd_mempool_chain_type \<Rightarrow> addr option \<Rightarrow>
   rspamd_mempool_stat_t \<Rightarrow> mem_error + (pool_chain \<times> rspamd_mempool_stat_t)" where
  "rspamd_mempool_chain_new pf nbytes pool_type m st =
     (let total_size = nbytes + sizeof_pool_chain pf + MIN_MEM_ALIGNMENT pf in
      if nbytes = 0 then Inl Abort
      else case m of
        None \<Rightarrow> Inl Abort
      | Some a \<Rightarrow>
         (if pool_type = RSPAMD_MEMPOOL_SHARED then
            Inr (\<lparr>chain_begin = a + sizeof_pool_chain pf,
                  pos = align_ptr (a + sizeof_pool_chain pf) (MIN_MEM_ALIGNMENT pf),
                  slice_size = total_size - sizeof_pool_chain pf\<rparr>,
                 st\<lparr>shared_chunks_allocated := shared_chunks_allocated st + 1,
                    bytes_allocated := bytes_allocated st + ucast total_size\<rparr>)
          else
            (let optimal_size = (case sys_alloc_size pf of None \<Rightarrow> 0 | Some g \<Rightarrow> g total_size);
                 total_size = max total_size optimal_size
             in Inr (\<lparr>chain_begin = a + sizeof_pool_chain pf,
                      pos = align_ptr (a + sizeof_pool_chain pf) (MIN_MEM_ALIGNMENT pf),
                      slice_size = total_size - sizeof_pool_chain pf\<rparr>,
                     st\<lparr>bytes_allocated := bytes_allocated st + ucast total_size,
                        chunks_allocated := chunks_allocated st + 1\<rparr>))))"

text \<open>
  \<open>rspamd_mempool_new_\<close>, after the row has been looked up: a size hint of zero takes the
  row's current suggestion.
\<close>

definition rspamd_mempool_new ::
  "gsize \<Rightarrow> mem_world \<Rightarrow> rspamd_mempool_t \<times> mem_world" where
  "rspamd_mempool_new nbytes w =
     (\<lparr>pools = (\<lambda>_. []), destructors = [], trash_stack = None,
       elt_len = (if nbytes = 0 then ucast (cur_suggestion (entry w)) else nbytes)\<rparr>,
      w\<lparr>mem_pool_stat := (mem_pool_stat w)
         \<lparr>pools_allocated := pools_allocated (mem_pool_stat w) + 1\<rparr>\<rparr>)"

text \<open>
  The size that \<open>memory_pool_alloc_common\<close> passes to \<open>rspamd_mempool_chain_new\<close>
  when the request does not fit the head slab: the two branches of its \<open>if\<close>.
\<close>

definition new_chain_request :: "platform \<Rightarrow> rspamd_mempool_t \<Rightarrow> gsize \<Rightarrow> gsize" where
  "new_chain_request pf pool nbytes =
     (if elt_len pool \<ge> nbytes + MIN_MEM_ALIGNMENT pf then elt_len pool
      else nbytes + elt_len pool)"

definition add_fragmentation :: "rspamd_mempool_entry_point \<Rightarrow> gsize \<Rightarrow> rspamd_mempool_entry_point" where
  "add_fragmentation e n =
     (let i = unat (cur_elts e); x = elts e ! i
      in e\<lparr>elts := (elts e)[i := x\<lparr>fragmentation := fragmentation x + ucast n\<rparr>]\<rparr>)"

text \<open>
  \<open>memory_pool_alloc_common\<close>. \<open>m\<close> is the block the system allocator hands out if the
  call needs one (\<open>g_malloc\<close> in always-malloc mode, else the new slab). The result is the
  pointer returned to the caller with the new pool and world; a null pool aborts.
\<close>

definition memory_pool_alloc_common ::
  "platform \<Rightarrow> rspamd_mempool_t option \<Rightarrow> mem_world \<Rightarrow> gsize \<Rightarrow> rspamd_mempool_chain_type \<Rightarrow>
   addr option \<Rightarrow> mem_error + (addr \<times> rspamd_mempool_t \<times> mem_world)" where
  "memory_pool_alloc_common pf po w nbytes pool_type m =
     (case po of
        None \<Rightarrow> Inl Abort
      | Some pool \<Rightarrow>
         if always_malloc pf \<and> pool_type \<noteq> RSPAMD_MEMPOOL_SHARED then
           (case m of
              None \<Rightarrow> Inl Abort
            | Some ptr \<Rightarrow>
                Inr (ptr,
                     pool\<lparr>trash_stack :=
                       Some ((case trash_stack pool of None \<Rightarrow> [] | Some ts \<Rightarrow> ts) @ [ptr])\<rparr>,
                     w))
         else
           (let cur = pools pool pool_type;
                free = (case cur of [] \<Rightarrow> 0 | c # _ \<Rightarrow> pool_chain_free pf c)
            in if cur = [] \<or> free < nbytes then
                 (let (e, st) =
                        (if elt_len pool \<ge> nbytes + MIN_MEM_ALIGNMENT pf
                         then (add_fragmentation (entry w) nbytes, mem_pool_stat w)
                         else (add_fragmentation (entry w) free,
                               (mem_pool_stat w)
                                 \<lparr>oversized_chunks := oversized_chunks (mem_pool_stat w) + 1,
                                  fragmented_size := fragmented_size (mem_pool_stat w) + ucast free\<rparr>))
                  in case rspamd_mempool_chain_new pf (new_chain_request pf pool nbytes) pool_type m st of
                       Inl err \<Rightarrow> Inl err
                     | Inr (new, st') \<Rightarrow>
                         (let tmp = pos new
                          in Inr (tmp,
                                  pool\<lparr>pools := (pools pool)(pool_type := new\<lparr>pos := tmp + nbytes\<rparr> # cur)\<rparr>,
                                  w\<lparr>mem_pool_stat := st', entry := e\<rparr>)))
               else
                 (let c = hd cur; tmp = align_ptr (pos c) (MIN_MEM_ALIGNMENT pf)
                  in Inr (tmp,
                          pool\<lparr>pools := (pools pool)(pool_type := c\<lparr>pos := tmp + nbytes\<rparr> # tl cur)\<rparr>,
                          w))))"

subsection \<open>Sorting and floating point\<close>

type_synonym gint = "32 word"

text \<open>
  \<open>cmp_int\<close> returns the difference of the two integers. The subtraction is done in
  \<open>gint\<close>: where the difference does not fit, the compiled code wraps around (the
  language leaves it undefined), and the sign of the result is then the wrong one.
\<close>

definition cmp_int :: "gint \<Rightarrow> gint \<Rightarrow> gint" where
  "cmp_int i1 i2 = i1 - i2"

text \<open>
  \<open>qsort\<close> is the C library's, taken here as glibc implements it for an array of this
  size: a top-down merge sort that splits at \<open>n / 2\<close> and, merging, takes the element
  of the left run whenever the comparison is not positive.
\<close>

fun msort_merge :: "('a \<Rightarrow> 'a \<Rightarrow> gint) \<Rightarrow> 'a list \<Rightarrow> 'a list \<Rightarrow> 'a list" where
  "msort_merge cmp [] ys = ys"
| "msort_merge cmp xs [] = xs"
| "msort_merge cmp (x # xs) (y # ys) =
     (if sint (cmp x y) \<le> 0 then x # msort_merge cmp xs (y # ys)
      else y # msort_merge cmp (x # xs) ys)"

function qsort :: "('a \<Rightarrow> 'a \<Rightarrow> gint) \<Rightarrow> 'a list \<Rightarrow> 'a list" where
  "qsort cmp xs =
     (if length xs \<le> 1 then xs
      else msort_merge cmp (qsort cmp (take (length xs div 2) xs))
                           (qsort cmp (drop (length xs div 2) xs)))"
  by pat_completeness auto
termination
  by (relation "measure (\<lambda>(cmp, xs). length xs)") auto

declare qsort.simps [simp del]

text \<open>
  A finite \<open>double\<close> is a pair \<open>(m, e)\<close> of integers standing for \<open>m * 2 ^ e\<close>.
  Every operation gives the exact result rounded to 53 significant bits, ties to even
  (IEEE 754 binary64 with each operation rounded, as SSE2 code does). The values met
  here, built from 32-bit integers, stay far from the subnormal range and from overflow,
  which are not modelled; a division by zero is dealt with where it can occur.
\<close>

type_synonym double = "int \<times> int"

text \<open>The number of bits of a positive integer.\<close>

function bit_length :: "int \<Rightarrow> int" where
  "bit_length n = (if n \<le> 0 then 0 else 1 + bit_length (n div 2))"
  by pat_completeness auto
termination
  by (relation "measure nat") auto

declare bit_length.simps [simp del]

text \<open>The quotient of a non-negative by a positive integer, rounded to nearest, ties to even.\<close>

definition rne_div :: "int \<Rightarrow> int \<Rightarrow> int" where
  "rne_div n d =
     (let q = n div d; r = n mod d
      in if 2 * r < d then q
         else if 2 * r > d then q + 1
         else if even q then q else q + 1)"

definition dbl_round :: "int \<Rightarrow> int \<Rightarrow> double" where
  "dbl_round m e =
     (let k = bit_length \<bar>m\<bar> - 53
      in if k \<le> 0 then (m, e)
         else (sgn m * rne_div \<bar>m\<bar> (2 ^ nat k), e + k))"

definition dbl_add :: "double \<Rightarrow> double \<Rightarrow> double" where
  "dbl_add a b =
     (let e = min (snd a) (snd b)
      in dbl_round (fst a * 2 ^ nat (snd a - e) + fst b * 2 ^ nat (snd b - e)) e)"

definition dbl_mul :: "double \<Rightarrow> double \<Rightarrow> double" where
  "dbl_mul a b = dbl_round (fst a * fst b) (snd a + snd b)"

text \<open>
  Division by a divisor that is not zero: the quotient of the two significands is scaled
  by a power of two so that it has 53 bits before the point, and rounded there.
\<close>

definition dbl_div :: "double \<Rightarrow> double \<Rightarrow> double" where
  "dbl_div a b =
     (if fst a = 0 then (0, 0)
      else
        (let p = \<bar>fst a\<bar>; q = \<bar>fst b\<bar>;
             k0 = 53 - (bit_length p - bit_length q);
             k = (if p * 2 ^ nat k0 \<ge> q * 2 ^ nat (- k0) * 2 ^ 53 then k0 - 1 else k0)
         in (sgn (fst a) * sgn (fst b) * rne_div (p * 2 ^ nat k) (q * 2 ^ nat (- k)),
             snd a - snd b - k)))"

text \<open>
  The conversion of a \<open>double\<close> to \<open>guint32\<close> drops the fraction. A value outside the
  range of the target is undefined in C; it is taken as x86-64 code converts it, through
  a 64-bit signed integer whose low 32 bits are kept, and which is zero in them when the
  value does not fit 64 bits either.
\<close>

definition dbl_to_guint32 :: "double \<Rightarrow> guint32" where
  "dbl_to_guint32 a =
     (let t = (if snd a \<ge> 0 then fst a * 2 ^ nat (snd a)
               else sgn (fst a) * (\<bar>fst a\<bar> div 2 ^ nat (- snd a)))
      in if \<bar>t\<bar> < 2 ^ 63 then word_of_int t else 0)"

text \<open>
  The two compound assignments of \<open>rspamd_mempool_adjust_entry\<close>:
  \<open>s *= (1 + ((double)x) / s) * 1.5\<close> and \<open>s /= (1 + ((double)x) / s) * 1.5\<close>, for the
  unsigned \<open>s\<close> and the signed \<open>x\<close>. With \<open>s\<close> zero the quotient is an infinity or
  not a number, and so is the product or quotient assigned, which the conversion turns
  into zero; likewise for a zero divisor in the second.
\<close>

definition adjust_factor :: "guint32 \<Rightarrow> gint \<Rightarrow> double" where
  "adjust_factor s x = dbl_mul (dbl_add (1, 0) (dbl_div (sint x, 0) (uint s, 0))) (3, - 1)"

definition mul_assign :: "guint32 \<Rightarrow> gint \<Rightarrow> guint32" where
  "mul_assign s x =
     (if s = 0 then 0 else dbl_to_guint32 (dbl_mul (uint s, 0) (adjust_factor s x)))"

definition div_assign :: "guint32 \<Rightarrow> gint \<Rightarrow> guint32" where
  "div_assign s x =
     (if s = 0 \<or> fst (adjust_factor s x) = 0 then 0
      else dbl_to_guint32 (dbl_div (uint s, 0) (adjust_factor s x)))"

subsection \<open>Entry-point rows\<close>

text \<open>
  \<open>rspamd_mempool_adjust_entry\<close>. \<open>sz[i]\<close> is the 32-bit difference, read as signed;
  \<open>rnd\<close> is the value that \<open>rspamd_random_uint64_fast\<close> returned.
\<close>

definition rspamd_mempool_adjust_entry ::
  "64 word \<Rightarrow> rspamd_mempool_entry_point \<Rightarrow> rspamd_mempool_entry_point" where
  "rspamd_mempool_adjust_entry rnd e =
     (let sz = qsort cmp_int (map (\<lambda>x. fragmentation x - leftover x) (elts e));
          jitter = unat (rnd mod 10);
          sel_pos = sz ! (50 + jitter);
          sel_neg = sz ! (4 + jitter);
          s = (if 0 <s sel_neg then mul_assign (cur_suggestion e) sel_pos
               else if sel_pos <s - sel_neg then div_assign (cur_suggestion e) (- sel_neg)
               else mul_assign (cur_suggestion e) sel_pos);
          s = (if s < 1024 then 1024
               else if s > 1024 * 1024 * 10 then 1024 * 1024 * 10
               else s)
      in e\<lparr>cur_suggestion := s,
           elts := replicate (length (elts e)) \<lparr>fragmentation = 0, leftover = 0\<rparr>\<rparr>)"

text \<open>The part of \<open>rspamd_mempool_delete\<close> that updates the row of the pool.\<close>

definition delete_update_entry ::
  "platform \<Rightarrow> 64 word \<Rightarrow> rspamd_mempool_t \<Rightarrow> rspamd_mempool_entry_point \<Rightarrow> rspamd_mempool_entry_point" where
  "delete_update_entry pf rnd pool e =
     (case pools pool RSPAMD_MEMPOOL_NORMAL of
        [] \<Rightarrow> e
      | cur # _ \<Rightarrow>
         (let i = unat (cur_elts e); x = elts e ! i;
              e = e\<lparr>elts := (elts e)[i := x\<lparr>leftover := ucast (pool_chain_free pf cur)\<rparr>]\<rparr>;
              e = e\<lparr>cur_elts := (cur_elts e + 1) mod (word_of_nat ENTRY_NELTS)\<rparr>
          in if cur_elts e = 0 then rspamd_mempool_adjust_entry rnd e else e))"

text \<open>Releasing the chains of all classes: the counters go down per chain.\<close>

fun free_chains :: "pool_chain list \<Rightarrow> rspamd_mempool_stat_t \<Rightarrow> rspamd_mempool_stat_t" where
  "free_chains [] st = st"
| "free_chains (c # cs) st =
     free_chains cs (st\<lparr>bytes_allocated := bytes_allocated st - ucast (slice_size c),
                        chunks_allocated := chunks_allocated st - 1\<rparr>)"

text \<open>
  \<open>rspamd_mempool_delete\<close>: row update, destructors, chains, counters. The pool itself
  is freed, so only the world is returned.
\<close>

definition rspamd_mempool_delete :: "platform \<Rightarrow> 64 word \<Rightarrow> rspamd_mempool_t \<Rightarrow> mem_world \<Rightarrow> mem_world" where
  "rspamd_mempool_delete pf rnd pool w =
     (let e = delete_update_entry pf rnd pool (entry w);
          tr = call_destructors (destructors pool) (calls w);
          st = free_chains (pools pool RSPAMD_MEMPOOL_NORMAL @ pools pool RSPAMD_MEMPOOL_TMP
                 @ pools pool RSPAMD_MEMPOOL_SHARED) (mem_pool_stat w);
          st = st\<lparr>pools_freed := pools_freed st + 1\<rparr>
      in w\<lparr>mem_pool_stat := st, entry := e, calls := tr\<rparr>)"

text \<open>Registering a list of destructors in order, as successive calls would.\<close>

fun add_destructors :: "rspamd_mempool_t \<Rightarrow> pool_destructors list \<Rightarrow> rspamd_mempool_t" where
  "add_destructors pool [] = pool"
| "add_destructors pool (d # ds) =
     add_destructors
       (rspamd_mempool_add_destructor_full pool (func d) (data d) (dtor_function d) (loc d)) ds"

text \<open>
  The adjustment as the specification words it: the same steps, with the net waste sorted
  ascending as signed integers.
\<close>

definition adjust_entry_ascending ::
  "64 word \<Rightarrow> rspamd_mempool_entry_point \<Rightarrow> rspamd_mempool_entry_point" where
  "adjust_entry_ascending rnd e =
     (let sz = sort_key sint (map (\<lambda>x. fragmentation x - leftover x) (elts e));
          jitter = unat (rnd mod 10);
          sel_pos = sz ! (50 + jitter);
          sel_neg = sz ! (4 + jitter);
          s = (if 0 <s sel_neg then mul_assign (cur_suggestion e) sel_pos
               else if sel_pos <s - sel_neg then div_assign (cur_suggestion e) (- sel_neg)
               else mul_assign (cur_suggestion e) sel_pos);
          s = (if s < 1024 then 1024
               else if s > 1024 * 1024 * 10 then 1024 * 1024 * 10
               else s)
      in e\<lparr>cur_suggestion := s,
           elts := replicate (length (elts e)) \<lparr>fragmentation = 0, leftover = 0\<rparr>\<rparr>)"

text \<open>No difference of two entries leaves the range of \<open>gint\<close>.\<close>

definition no_wrap :: "gint list \<Rightarrow> bool" where
  "no_wrap xs \<longleftrightarrow>
     list_all (\<lambda>a. list_all (\<lambda>b. - (2 ^ 31) \<le> sint a - sint b \<and> sint a - sint b < 2 ^ 31) xs) xs"

subsection \<open>A concrete platform, pool and world\<close>

text \<open>
  An LP64 build without \<open>HAVE_MALLOC_SIZE\<close>: alignment 8, a 40-byte chain header,
  4 KiB pages; a pool with 4 KiB slabs and no slab yet.
\<close>

definition demo_platform :: platform where
  "demo_platform = \<lparr>MIN_MEM_ALIGNMENT = 8, sizeof_pool_chain = 40, getpagesize = 4096,
     always_malloc = False, sys_alloc_size = None\<rparr>"

definition demo_pool :: rspamd_mempool_t where
  "demo_pool = \<lparr>pools = (\<lambda>_. []), destructors = [], trash_stack = None, elt_len = 4096\<rparr>"

definition demo_world :: mem_world where
  "demo_world = \<lparr>mem_pool_stat = \<lparr>pools_allocated = 1, pools_freed = 0, bytes_allocated = 0,
       chunks_allocated = 0, shared_chunks_allocated = 0, oversized_chunks = 0, fragmented_size = 0\<rparr>,
     entry = rspamd_mempool_entry_new demo_platform ''demo'',
     calls = []\<rparr>"

text \<open>
  A pool with 1 MiB slabs after its first allocation, of 16 bytes, with the world that
  allocation leaves; and a number of teardowns of one pool, one after the other.
\<close>

definition slab_state :: "rspamd_mempool_t \<times> mem_world" where
  "slab_state =
     (case memory_pool_alloc_common demo_platform (Some (demo_pool\<lparr>elt_len := 1048576\<rparr>))
             demo_world 16 RSPAMD_MEMPOOL_NORMAL (Some 0x10000) of
        Inl _ \<Rightarrow> (demo_pool, demo_world)
      | Inr (p, pool', w') \<Rightarrow> (pool', w'))"

fun teardowns :: "platform \<Rightarrow> 64 word \<Rightarrow> rspamd_mempool_t \<Rightarrow> nat \<Rightarrow> mem_world \<Rightarrow> mem_world" where
  "teardowns pf rnd pool 0 w = w"
| "teardowns pf rnd pool (Suc n) w = teardowns pf rnd pool n (rspamd_mempool_delete pf rnd pool w)"

text \<open>
  A row whose ring holds six slots with 1400000000 bytes of fragmentation, four with
  1600000000 bytes left over, and 54 empty ones.
\<close>

definition wrap_row :: rspamd_mempool_entry_point where
  "wrap_row =
     \<lparr>src = ''demo'', cur_suggestion = 4096, cur_elts = 0,
      elts = replicate 6 \<lparr>fragmentation = 1400000000, leftover = 0\<rparr>
           @ replicate 4 \<lparr>fragmentation = 0, leftover = 1600000000\<rparr>
           @ replicate 54 \<lparr>fragmentation = 0, leftover = 0\<rparr>\<rparr>"

text \<open>
  The rows a process can hold: a row is created by \<open>rspamd_mempool_entry_new\<close> and then
  only touched through the pools that point to it, by an allocation or by a teardown.
\<close>

inductive row_reach :: "platform \<Rightarrow> rspamd_mempool_entry_point \<Rightarrow> bool" for pf where
  row_new: "row_reach pf (rspamd_mempool_entry_new pf l)"
| row_alloc: "row_reach pf (entry w) \<Longrightarrow>
     memory_pool_alloc_common pf po w n t m = Inr (p, pool', w') \<Longrightarrow> row_reach pf (entry w')"
| row_delete: "row_reach pf (entry w) \<Longrightarrow>
     row_reach pf (entry (rspamd_mempool_delete pf rnd pool w))"

section \<open>Map helpers (src/libutil/map\_helpers.c)\<close>

subsection \<open>Data model\<close>

text \<open>
  A C string is modelled by its bytes before the terminator. Every helper owns a memory
  pool; what it allocates there is kept in two typed heaps, the interned key strings
  (\<open>rspamd_mempool_strdup\<close>) and the value records (\<open>rspamd_mempool_alloc0\<close>), and a
  pointer into the pool is the index of the object in its heap. So two pointers are equal
  exactly when they are the same index, and a record can be updated in place.
\<close>

type_synonym ptr = nat

record rspamd_map_helper_value =
  hits :: "64 word"
  key_ptr :: ptr
  value_bytes :: string

text \<open>
  The fingerprint state \<open>hst\<close> is the list of byte strings mixed in so far, in order:
  \<open>rspamd_cryptobox_fast_hash_init\<close> with the fixed seed starts from the empty list and
  \<open>rspamd_cryptobox_fast_hash_update\<close> appends its argument. The hash table \<open>htb\<close> is
  the list of its occupied slots, each holding the key pointer and the value pointer.
\<close>

record rspamd_hash_map_helper =
  pool_strs :: "string list"
  pool_vals :: "rspamd_map_helper_value list"
  htb :: "(ptr \<times> ptr) list"
  hst :: "string list"

record 'trie rspamd_radix_map_helper = rspamd_hash_map_helper +
  trie :: 'trie

record ('re, 'db) rspamd_regexp_map_helper = rspamd_hash_map_helper +
  regexps :: "'re list option"
  re_values :: "ptr list"
  flag_glob :: bool
  flag_multiple :: bool
  flag_utf :: bool
  hs_db :: "'db option"
  hs_scratch :: bool

text \<open>
  Modelled from the spec: the collaborators that are not among the sources. The digest
  function \<open>rspamd_cryptobox_fast_hash_final\<close>, the trie insertion
  \<open>rspamd_radix_add_iplist\<close>, and the regular expression engine: compilation (\<open>None\<close>
  on a syntax error), glob escaping, the UTF flag of a compiled expression, search with the
  raw hint, UTF-8 validation, and the multi-pattern scan, which reports the identifiers of
  the patterns that hit, in order, and whether it ended with \<open>HS_SUCCESS\<close>.
\<close>

record ('re, 'db, 'trie) collaborators =
  rspamd_cryptobox_fast_hash_final :: "string list \<Rightarrow> 64 word"
  rspamd_radix_add_iplist :: "string \<Rightarrow> 'trie \<Rightarrow> ptr \<Rightarrow> bool \<Rightarrow> 'trie"
  rspamd_regexp_new :: "string \<Rightarrow> 're option"
  rspamd_str_regexp_escape :: "string \<Rightarrow> string"
  rspamd_regexp_is_utf :: "'re \<Rightarrow> bool"
  rspamd_regexp_search :: "'re \<Rightarrow> string \<Rightarrow> bool \<Rightarrow> bool"
  g_utf8_validate :: "string \<Rightarrow> bool"
  hs_scan :: "'db \<Rightarrow> string \<Rightarrow> nat list \<times> bool"

subsection \<open>The case-insensitive hash table\<close>

text \<open>
  Modelled from the spec: \<open>rspamd_strcase_equal\<close> is defined outside the sources; keys
  are compared case-insensitively over ASCII.
\<close>

definition g_ascii_tolower :: "char \<Rightarrow> char" where
  "g_ascii_tolower ch =
     (if (65 :: nat) \<le> of_char ch \<and> of_char ch \<le> (90 :: nat)
      then char_of (of_char ch + (32 :: nat)) else ch)"

definition rspamd_strcase_equal :: "string \<Rightarrow> string \<Rightarrow> bool" where
  "rspamd_strcase_equal a b = (map g_ascii_tolower a = map g_ascii_tolower b)"

fun first_index :: "('a \<Rightarrow> bool) \<Rightarrow> 'a list \<Rightarrow> nat option" where
  "first_index P [] = None"
| "first_index P (x # xs) = (if P x then Some 0 else map_option Suc (first_index P xs))"

text \<open>The key strings of the slots, read through the key pointers.\<close>

definition slot_keys :: "'a rspamd_hash_map_helper_scheme \<Rightarrow> string list" where
  "slot_keys h = map (\<lambda>(kp, vp). pool_strs h ! kp) (htb h)"

text \<open>\<open>kh_get\<close>: the slot of the key, \<open>None\<close> for \<open>kh_end\<close>.\<close>

definition kh_get :: "'a rspamd_hash_map_helper_scheme \<Rightarrow> string \<Rightarrow> nat option" where
  "kh_get h k = first_index (\<lambda>s. rspamd_strcase_equal s k) (slot_keys h)"

text \<open>
  \<open>rspamd_mempool_strdup\<close> followed by \<open>kh_put\<close> for a key that is absent: the copy
  gets the next index of the string heap and a new slot holds it. The value of the slot
  is assigned by the caller right after.
\<close>

definition kh_put_strdup :: "'a rspamd_hash_map_helper_scheme \<Rightarrow> string \<Rightarrow> 'a rspamd_hash_map_helper_scheme" where
  "kh_put_strdup h k =
     h\<lparr>pool_strs := pool_strs h @ [k], htb := htb h @ [(length (pool_strs h), 0)]\<rparr>"

text \<open>
  The tail shared by the three insertion functions: allocate a zeroed record, copy the
  value into it, point it to the slot's key, store it in the slot \<open>k\<close> and mix the key
  of the slot into the fingerprint.
\<close>

definition store_value :: "'a rspamd_hash_map_helper_scheme \<Rightarrow> nat \<Rightarrow> string \<Rightarrow> 'a rspamd_hash_map_helper_scheme" where
  "store_value h k v =
     (let nk = fst (htb h ! k); val = length (pool_vals h)
      in h\<lparr>pool_vals := pool_vals h @ [\<lparr>hits = 0, key_ptr = nk, value_bytes = v\<rparr>],
           htb := (htb h)[k := (nk, val)],
           hst := hst h @ [pool_strs h ! nk]\<rparr>)"

subsection \<open>Hash map helper\<close>

definition rspamd_map_helper_new_hash :: rspamd_hash_map_helper where
  "rspamd_map_helper_new_hash = \<lparr>pool_strs = [], pool_vals = [], htb = [], hst = []\<rparr>"

definition rspamd_map_helper_insert_hash ::
  "rspamd_hash_map_helper \<Rightarrow> string \<Rightarrow> string \<Rightarrow> rspamd_hash_map_helper" where
  "rspamd_map_helper_insert_hash ht k v =
     (case kh_get ht k of
        None \<Rightarrow> store_value (kh_put_strdup ht k) (length (htb ht)) v
      | Some i \<Rightarrow>
          if v = value_bytes (pool_vals ht ! snd (htb ht ! i)) then ht
          else store_value ht i v)"

text \<open>
  \<open>rspamd_match_hash_map\<close>: a null map gives no value; a hit bumps the counter of the
  record in place and returns its value.
\<close>

definition rspamd_match_hash_map ::
  "rspamd_hash_map_helper option \<Rightarrow> string \<Rightarrow> string option \<times> rspamd_hash_map_helper option" where
  "rspamd_match_hash_map mo inp =
     (case mo of
        None \<Rightarrow> (None, None)
      | Some m \<Rightarrow>
         (case kh_get m inp of
            None \<Rightarrow> (None, Some m)
          | Some k \<Rightarrow>
             (let vp = snd (htb m ! k); val = pool_vals m ! vp
              in (Some (value_bytes val),
                  Some (m\<lparr>pool_vals := (pool_vals m)[vp := val\<lparr>hits := hits val + 1\<rparr>]\<rparr>)))))"

text \<open>The state a hash helper reaches from a fresh one by a sequence of insertions.\<close>

definition hash_inserts :: "(string \<times> string) list \<Rightarrow> rspamd_hash_map_helper" where
  "hash_inserts kvs = foldl (\<lambda>h (k, v). rspamd_map_helper_insert_hash h k v) rspamd_map_helper_new_hash kvs"

text \<open>
  Every key pointer held by the table points to an interned string: the invariant of the
  states that insertions and lookups produce, under which interning one more string leaves
  the keys of the existing slots as they are.
\<close>

definition keys_ok :: "'a rspamd_hash_map_helper_scheme \<Rightarrow> bool" where
  "keys_ok h = list_all (\<lambda>(kp, vp). kp < length (pool_strs h)) (htb h)"

subsection \<open>Radix and regexp map helpers\<close>

definition rspamd_map_helper_new_radix :: "'trie \<Rightarrow> 'trie rspamd_radix_map_helper" where
  "rspamd_map_helper_new_radix t = \<lparr>pool_strs = [], pool_vals = [], htb = [], hst = [], trie = t\<rparr>"

text \<open>
  \<open>rspamd_map_helper_insert_radix\<close> and \<open>rspamd_map_helper_insert_radix_resolve\<close> differ
  in the last argument of \<open>rspamd_radix_add_iplist\<close> only.
\<close>

definition insert_radix_common ::
  "('re, 'db, 'trie) collaborators \<Rightarrow> bool \<Rightarrow> 'trie rspamd_radix_map_helper \<Rightarrow> string \<Rightarrow> string \<Rightarrow>
   'trie rspamd_radix_map_helper" where
  "insert_radix_common cl resolve r k v =
     (let (i, r) = (case kh_get r k of
                      None \<Rightarrow> (length (htb r), kh_put_strdup r k)
                    | Some i \<Rightarrow> (i, r));
          val = length (pool_vals r);
          r = store_value r i v
      in r\<lparr>trie := rspamd_radix_add_iplist cl k (trie r) val resolve\<rparr>)"

definition rspamd_map_helper_insert_radix ::
  "('re, 'db, 'trie) collaborators \<Rightarrow> 'trie rspamd_radix_map_helper \<Rightarrow> string \<Rightarrow> string \<Rightarrow>
   'trie rspamd_radix_map_helper" where
  "rspamd_map_helper_insert_radix cl = insert_radix_common cl False"

definition rspamd_map_helper_insert_radix_resolve ::
  "('re, 'db, 'trie) collaborators \<Rightarrow> 'trie rspamd_radix_map_helper \<Rightarrow> string \<Rightarrow> string \<Rightarrow>
   'trie rspamd_radix_map_helper" where
  "rspamd_map_helper_insert_radix_resolve cl = insert_radix_common cl True"

text \<open>\<open>rspamd_map_helper_new_regexp\<close> with the flags of the reader that creates it.\<close>

definition rspamd_map_helper_new_regexp :: "bool \<Rightarrow> bool \<Rightarrow> ('re, 'db) rspamd_regexp_map_helper" where
  "rspamd_map_helper_new_regexp glob multiple =
     \<lparr>pool_strs = [], pool_vals = [], htb = [], hst = [],
      regexps = Some [], re_values = [], flag_glob = glob, flag_multiple = multiple,
      flag_utf = False, hs_db = None, hs_scratch = False\<rparr>"

definition rspamd_map_helper_insert_re ::
  "('re, 'db, 'trie) collaborators \<Rightarrow> ('re, 'db) rspamd_regexp_map_helper \<Rightarrow> string \<Rightarrow> string \<Rightarrow>
   ('re, 'db) rspamd_regexp_map_helper" where
  "rspamd_map_helper_insert_re cl re_map k v =
     (case (if flag_glob re_map then rspamd_regexp_new cl (rspamd_str_regexp_escape cl k)
            else rspamd_regexp_new cl k) of
        None \<Rightarrow> re_map
      | Some re \<Rightarrow>
         (let (i, m) = (case kh_get re_map k of
                          None \<Rightarrow> (length (htb re_map), kh_put_strdup re_map k)
                        | Some i \<Rightarrow> (i, re_map));
              val = length (pool_vals m);
              m = store_value m i v;
              m = (if rspamd_regexp_is_utf cl re then m\<lparr>flag_utf := True\<rparr> else m)
          in m\<lparr>regexps := Some ((case regexps m of None \<Rightarrow> [] | Some rs \<Rightarrow> rs) @ [re]),
               re_values := re_values m @ [val]\<rparr>))"

text \<open>
  The finalizers \<open>rspamd_kv_list_fin\<close>, \<open>rspamd_radix_fin\<close> and
  \<open>rspamd_regexp_list_fin\<close> publish the number of slots and the digest of the
  fingerprint state when there is a current helper.
\<close>

definition list_fin ::
  "('re, 'db, 'trie) collaborators \<Rightarrow> 'a rspamd_hash_map_helper_scheme option \<Rightarrow> (nat \<times> 64 word) option" where
  "list_fin cl cur_data =
     (case cur_data of
        None \<Rightarrow> None
      | Some h \<Rightarrow> Some (length (htb h), rspamd_cryptobox_fast_hash_final cl (hst h)))"

definition radix_inserts ::
  "('re, 'db, 'trie) collaborators \<Rightarrow> 'trie \<Rightarrow> (string \<times> string) list \<Rightarrow> 'trie rspamd_radix_map_helper" where
  "radix_inserts cl t kvs =
     foldl (\<lambda>h (k, v). rspamd_map_helper_insert_radix cl h k v) (rspamd_map_helper_new_radix t) kvs"

definition regexp_inserts ::
  "('re, 'db, 'trie) collaborators \<Rightarrow> bool \<Rightarrow> bool \<Rightarrow> (string \<times> string) list \<Rightarrow>
   ('re, 'db) rspamd_regexp_map_helper" where
  "regexp_inserts cl glob multiple kvs =
     foldl (\<lambda>h (k, v). rspamd_map_helper_insert_re cl h k v) (rspamd_map_helper_new_regexp glob multiple) kvs"

subsection \<open>A concrete hash helper\<close>

definition demo_hash :: rspamd_hash_map_helper where
  "demo_hash = hash_inserts [(''foo'', ''bar'')]"

subsection \<open>Matching all expressions\<close>

text \<open>\<open>val->hits ++\<close> on the record a value pointer points to.\<close>

definition bump_hits :: "ptr \<Rightarrow> 'a rspamd_hash_map_helper_scheme \<Rightarrow> 'a rspamd_hash_map_helper_scheme" where
  "bump_hits vp m =
     m\<lparr>pool_vals := (pool_vals m)[vp := (pool_vals m ! vp)\<lparr>hits := hits (pool_vals m ! vp) + 1\<rparr>]\<rparr>"

text \<open>
  \<open>rspamd_match_hs_multiple_handler\<close>, called by the scan for each pattern identifier it
  reports: an identifier within the values array bumps the record and appends its value.
\<close>

definition rspamd_match_hs_multiple_handler ::
  "string list \<times> ('re, 'db) rspamd_regexp_map_helper \<Rightarrow> nat \<Rightarrow>
   string list \<times> ('re, 'db) rspamd_regexp_map_helper" where
  "rspamd_match_hs_multiple_handler cbd ident =
     (let (ar, m) = cbd
      in if ident < length (re_values m)
         then (ar @ [value_bytes (pool_vals m ! (re_values m ! ident))],
               bump_hits (re_values m ! ident) m)
         else (ar, m))"

text \<open>One round of the fallback loop over the compiled expressions.\<close>

definition pcre_step ::
  "('re, 'db, 'trie) collaborators \<Rightarrow> 're list \<Rightarrow> string \<Rightarrow> bool \<Rightarrow>
   string list \<times> ('re, 'db) rspamd_regexp_map_helper \<Rightarrow> nat \<Rightarrow>
   string list \<times> ('re, 'db) rspamd_regexp_map_helper" where
  "pcre_step cl rs inp raw acc i =
     (let (ret, m) = acc
      in if rspamd_regexp_search cl (rs ! i) inp raw
         then (ret @ [value_bytes (pool_vals m ! (re_values m ! i))],
               bump_hits (re_values m ! i) m)
         else (ret, m))"

text \<open>
  \<open>rspamd_match_regexp_map_all\<close>. The input is the byte string of the given length.
  The result is the array returned (\<open>None\<close> for the null pointer) and the map with its
  hit counters. A build without the multi-pattern engine is a map whose \<open>hs_db\<close> is null.
\<close>

definition rspamd_match_regexp_map_all ::
  "('re, 'db, 'trie) collaborators \<Rightarrow> ('re, 'db) rspamd_regexp_map_helper option \<Rightarrow> string \<Rightarrow>
   string list option \<times> ('re, 'db) rspamd_regexp_map_helper option" where
  "rspamd_match_regexp_map_all cl mo inp =
     (case mo of
        None \<Rightarrow> (None, None)
      | Some m \<Rightarrow>
         (case regexps m of
            None \<Rightarrow> (None, Some m)
          | Some rs \<Rightarrow>
             if length inp = 0 then (None, Some m)
             else
               (let validated = (if flag_utf m then g_utf8_validate cl inp else True);
                    (res, ret, m) =
                      (case hs_db m of
                         None \<Rightarrow> (False, [], m)
                       | Some db \<Rightarrow>
                           if hs_scratch m \<and> validated then
                             (let (ids, success) = hs_scan cl db inp;
                                  (ar, m) = foldl rspamd_match_hs_multiple_handler ([], m) ids
                              in (success, ar, m))
                           else (False, [], m));
                    (ret, m) = (if \<not> res
                                then foldl (pcre_step cl rs inp (\<not> validated)) (ret, m) [0..<length rs]
                                else (ret, m))
                in if length ret > 0 then (Some ret, Some m) else (None, Some m))))"

section \<open>Key-value list parser (src/libutil/map\_helpers.c)\<close>

subsection \<open>Characters and the store macros\<close>

text \<open>
  Modelled from the spec: \<open>g_ascii_isspace\<close> and \<open>g_strstrip\<close> are GLib's and
  \<open>rspamd_strlcpy\<close> is defined outside the sources. White space is space, tab, line
  feed, form feed and carriage return; stripping removes it at both ends; the copy stops
  at a zero byte.
\<close>

definition g_ascii_isspace :: "char \<Rightarrow> bool" where
  "g_ascii_isspace ch \<longleftrightarrow>
     ch = CHR '' '' \<or> ch = CHR 0x09 \<or> ch = CHR 0x0A \<or> ch = CHR 0x0C \<or> ch = CHR 0x0D"

definition g_strstrip :: "string \<Rightarrow> string" where
  "g_strstrip s = rev (dropWhile g_ascii_isspace (rev (dropWhile g_ascii_isspace s)))"

definition rspamd_strlcpy :: "string \<Rightarrow> nat \<Rightarrow> string" where
  "rspamd_strlcpy s siz = takeWhile (\<lambda>ch. ch \<noteq> CHR 0x00) (take (siz - 1) s)"

definition is_eol :: "char \<Rightarrow> bool" where
  "is_eol ch \<longleftrightarrow> ch = CHR 0x0D \<or> ch = CHR 0x0A"

text \<open>
  \<open>MAP_STORE_KEY\<close> and \<open>MAP_STORE_VALUE\<close> are the same text: advance \<open>c\<close> over white
  space while it is below \<open>p\<close>, copy the bytes from \<open>c\<close> to \<open>p\<close> and strip the copy.
  Pointers into the chunk are offsets from its start. The macro moves \<open>c\<close> itself, so the
  new offset is returned with the string.
\<close>

definition MAP_STORE :: "string \<Rightarrow> nat \<Rightarrow> nat \<Rightarrow> nat \<times> string" where
  "MAP_STORE chunk c p =
     (let c' = c + length (takeWhile g_ascii_isspace (take (p - c) (drop c chunk)))
      in (c', g_strstrip (rspamd_strlcpy (drop c' chunk) (p - c' + 1))))"

subsection \<open>The state machine\<close>

datatype map_state =
    map_skip_spaces_before_key
  | map_read_key
  | map_read_key_quoted
  | map_read_key_slashed
  | map_skip_spaces_after_key
  | map_backslash_quoted
  | map_backslash_slashed
  | map_read_key_after_slash
  | map_read_value
  | map_read_comment_start
  | map_skip_comment
  | map_read_eol

datatype kv_error = Assert_not_reached

text \<open>
  What survives a call is \<open>data->state\<close> and \<open>data->cur_data\<close>, the object the
  insertion callback works on. The variables of one call are the two offsets \<open>p\<close> and
  \<open>c\<close>, the key that has been stored but not yet inserted (\<open>None\<close> for the null
  pointer) and the line counter.
\<close>

text \<open>The insertion callback: it gets the object, the key and the value.\<close>

type_synonym 's insert_func = "'s \<Rightarrow> string \<Rightarrow> string \<Rightarrow> 's"

record 's map_cb_data =
  state :: map_state
  cur_data :: 's

record 's kv_vars =
  kv_data :: "'s map_cb_data"
  kv_p :: nat
  kv_c :: nat
  kv_key :: "string option"
  line_number :: nat

text \<open>
  The branch taken by \<open>map_read_key\<close> and \<open>map_read_key_after_slash\<close> at a comment
  sign or at an end of line: a key of positive length is stored and inserted with the
  default value; the key variable is null afterwards in every path but one, the empty key
  at a comment sign after a slash, where it is left alone.
\<close>

definition insert_key_only ::
  "'s insert_func \<Rightarrow> string \<Rightarrow> string \<Rightarrow> 's kv_vars \<Rightarrow> 's kv_vars" where
  "insert_key_only ifunc default_value chunk L =
     (if kv_p L > kv_c L then
        (let (c', k) = MAP_STORE chunk (kv_c L) (kv_p L)
         in L\<lparr>kv_c := c', kv_key := None,
              kv_data := (kv_data L)\<lparr>cur_data := ifunc (cur_data (kv_data L)) k default_value\<rparr>\<rparr>)
      else L)"

text \<open>
  The branch of \<open>map_read_value\<close> at a comment sign, at an end of line and at the end of
  the input: the value, or the default when it is empty, is inserted under the stored key.
\<close>

definition insert_key_value ::
  "'s insert_func \<Rightarrow> string \<Rightarrow> string \<Rightarrow> string \<Rightarrow> 's kv_vars \<Rightarrow> 's kv_vars" where
  "insert_key_value ifunc default_value chunk k L =
     (if kv_p L > kv_c L then
        (let (c', v) = MAP_STORE chunk (kv_c L) (kv_p L)
         in L\<lparr>kv_c := c', kv_key := None,
              kv_data := (kv_data L)\<lparr>cur_data := ifunc (cur_data (kv_data L)) k v\<rparr>\<rparr>)
      else L\<lparr>kv_key := None,
             kv_data := (kv_data L)\<lparr>cur_data := ifunc (cur_data (kv_data L)) k default_value\<rparr>\<rparr>)"

definition set_state :: "map_state \<Rightarrow> 's kv_vars \<Rightarrow> 's kv_vars" where
  "set_state s L = L\<lparr>kv_data := (kv_data L)\<lparr>state := s\<rparr>\<rparr>"

definition advance :: "'s kv_vars \<Rightarrow> 's kv_vars" where
  "advance L = L\<lparr>kv_p := kv_p L + 1\<rparr>"

text \<open>One round of the \<open>while (p < end)\<close> loop: the \<open>switch\<close> on the state.\<close>

definition kv_step ::
  "'s insert_func \<Rightarrow> string \<Rightarrow> string \<Rightarrow> 's kv_vars \<Rightarrow> kv_error + 's kv_vars" where
  "kv_step ifunc default_value chunk L =
     (let ch = chunk ! kv_p L; p = kv_p L; c = kv_c L in
      case state (kv_data L) of
        map_skip_spaces_before_key \<Rightarrow>
          if g_ascii_isspace ch then Inr (advance L)
          else if ch = CHR 0x22 then
            Inr (set_state map_read_key_quoted (L\<lparr>kv_p := p + 1, kv_c := p + 1\<rparr>))
          else if ch = CHR ''/'' then
            Inr (set_state map_read_key_slashed (L\<lparr>kv_c := p, kv_p := p + 1\<rparr>))
          else Inr (set_state map_read_key (L\<lparr>kv_c := p\<rparr>))
      | map_read_key \<Rightarrow>
          if ch = CHR ''#'' \<and> (p = c \<or> chunk ! (p - 1) \<noteq> CHR 0x5C) then
            Inr (set_state map_read_comment_start
                  ((insert_key_only ifunc default_value chunk L)\<lparr>kv_key := None\<rparr>))
          else if is_eol ch then
            Inr (set_state map_read_eol
                  ((insert_key_only ifunc default_value chunk L)\<lparr>kv_key := None\<rparr>))
          else if g_ascii_isspace ch then
            (if p > c then
               (let (c', k) = MAP_STORE chunk c p
                in Inr (set_state map_skip_spaces_after_key (L\<lparr>kv_c := c', kv_key := Some k\<rparr>)))
             else Inr (set_state map_skip_comment L))
          else Inr (advance L)
      | map_read_key_quoted \<Rightarrow>
          if ch = CHR 0x5C then Inr (advance (set_state map_backslash_quoted L))
          else if ch = CHR 0x22 then
            (if p \<ge> c then
               (let (c', k) = MAP_STORE chunk c p
                in Inr (advance (set_state map_skip_spaces_after_key
                                  (L\<lparr>kv_c := c', kv_key := Some k\<rparr>))))
             else Inl Assert_not_reached)
          else Inr (advance L)
      | map_read_key_slashed \<Rightarrow>
          if ch = CHR 0x5C then Inr (advance (set_state map_backslash_slashed L))
          else if ch = CHR ''/'' then
            (if p \<ge> c then Inr (set_state map_read_key_after_slash L)
             else Inl Assert_not_reached)
          else Inr (advance L)
      | map_read_key_after_slash \<Rightarrow>
          if ch = CHR ''#'' then
            Inr (set_state map_read_comment_start (insert_key_only ifunc default_value chunk L))
          else if is_eol ch then
            Inr (set_state map_read_eol
                  ((insert_key_only ifunc default_value chunk L)\<lparr>kv_key := None\<rparr>))
          else if g_ascii_isspace ch then
            (if p > c then
               (let (c', k) = MAP_STORE chunk c p
                in Inr (set_state map_skip_spaces_after_key (L\<lparr>kv_c := c', kv_key := Some k\<rparr>)))
             else Inr (set_state map_skip_comment L))
          else Inr (advance L)
      | map_backslash_quoted \<Rightarrow> Inr (set_state map_read_key_quoted (advance L))
      | map_backslash_slashed \<Rightarrow> Inr (set_state map_read_key_slashed (advance L))
      | map_skip_spaces_after_key \<Rightarrow>
          if ch = CHR '' '' \<or> ch = CHR 0x09 then Inr (advance L)
          else Inr (set_state map_read_value (L\<lparr>kv_c := p\<rparr>))
      | map_read_value \<Rightarrow>
          (case kv_key L of
             None \<Rightarrow> Inr (set_state map_skip_comment L)
           | Some k \<Rightarrow>
               if ch = CHR ''#'' then
                 Inr (set_state map_read_comment_start (insert_key_value ifunc default_value chunk k L))
               else if is_eol ch then
                 Inr (set_state map_read_eol (insert_key_value ifunc default_value chunk k L))
               else Inr (advance L))
      | map_read_comment_start \<Rightarrow>
          if ch = CHR ''#'' then Inr (advance (set_state map_skip_comment (L\<lparr>kv_key := None\<rparr>)))
          else Inl Assert_not_reached
      | map_skip_comment \<Rightarrow>
          if is_eol ch then Inr (set_state map_read_eol L) else Inr (advance L)
      | map_read_eol \<Rightarrow>
          if is_eol ch then
            Inr (advance (if ch = CHR 0x0A then L\<lparr>line_number := line_number L + 1\<rparr> else L))
          else Inr (set_state map_skip_spaces_before_key L))"

text \<open>
  The measure of the loop: the bytes left, and among the rounds that do not move \<open>p\<close>
  the rank of the state, which depends on whether the byte under \<open>p\<close> ends a line.
\<close>

definition state_rank :: "map_state \<Rightarrow> bool \<Rightarrow> nat" where
  "state_rank s eol =
     (if eol then
        (case s of
           map_skip_spaces_after_key \<Rightarrow> 3
         | map_read_value \<Rightarrow> 2
         | map_skip_comment \<Rightarrow> 1
         | map_read_key \<Rightarrow> 1
         | map_read_key_after_slash \<Rightarrow> 1
         | _ \<Rightarrow> 0)
      else
        (case s of
           map_read_eol \<Rightarrow> 5
         | map_skip_spaces_before_key \<Rightarrow> 4
         | map_read_key_slashed \<Rightarrow> 4
         | map_read_key \<Rightarrow> 3
         | map_read_key_after_slash \<Rightarrow> 3
         | map_skip_spaces_after_key \<Rightarrow> 2
         | map_read_value \<Rightarrow> 1
         | _ \<Rightarrow> 0))"

definition kv_measure :: "string \<Rightarrow> 's kv_vars \<Rightarrow> nat" where
  "kv_measure chunk L =
     (length chunk - kv_p L) * 6 + state_rank (state (kv_data L)) (is_eol (chunk ! kv_p L))"

function kv_loop ::
  "'s insert_func \<Rightarrow> string \<Rightarrow> string \<Rightarrow> 's kv_vars \<Rightarrow> kv_error + 's kv_vars" where
  "kv_loop ifunc default_value chunk L =
     (if kv_p L < length chunk then
        (case kv_step ifunc default_value chunk L of
           Inl e \<Rightarrow> Inl e
         | Inr L' \<Rightarrow> kv_loop ifunc default_value chunk L')
      else Inr L)"
  by pat_completeness auto
termination
proof (relation "measure (\<lambda>(ifunc, default_value, chunk, L). kv_measure chunk L)")
  show "wf (measure (\<lambda>(ifunc :: 's \<Rightarrow> string \<Rightarrow> string \<Rightarrow> 's, default_value :: string,
      chunk :: string, L :: 's kv_vars). kv_measure chunk L))"
    by simp
next
  fix ifunc :: "'s \<Rightarrow> string \<Rightarrow> string \<Rightarrow> 's" and default_value chunk :: string
    and L L' :: "'s kv_vars"
  assume "kv_p L < length chunk" and "kv_step ifunc default_value chunk L = Inr L'"
  then have "kv_measure chunk L' < kv_measure chunk L"
    unfolding kv_step_def kv_measure_def Let_def
    by (cases "state (kv_data L)")
       (auto simp: set_state_def advance_def insert_key_only_def insert_key_value_def
          state_rank_def is_eol_def g_ascii_isspace_def
          split: if_splits prod.splits option.splits)
  then show "((ifunc, default_value, chunk, L'), (ifunc, default_value, chunk, L))
      \<in> measure (\<lambda>(ifunc, default_value, chunk, L). kv_measure chunk L)"
    by simp
qed

declare kv_loop.simps [simp del]

text \<open>The \<open>switch\<close> that examines the state after the loop when \<open>final\<close> is set.\<close>

definition kv_final ::
  "'s insert_func \<Rightarrow> string \<Rightarrow> string \<Rightarrow> 's kv_vars \<Rightarrow> 's kv_vars" where
  "kv_final ifunc default_value chunk L =
     set_state map_skip_spaces_before_key
       (case state (kv_data L) of
          map_read_key \<Rightarrow> insert_key_only ifunc default_value chunk L
        | map_read_value \<Rightarrow>
            (case kv_key L of
               None \<Rightarrow> set_state map_skip_comment L
             | Some k \<Rightarrow> insert_key_value ifunc default_value chunk k L)
        | _ \<Rightarrow> L)"

text \<open>
  \<open>rspamd_parse_kv_list\<close>: \<open>len\<close> is the length of the chunk; the result is the offset
  of the pointer returned and the callback data as the call leaves them.
\<close>

definition rspamd_parse_kv_list ::
  "'s insert_func \<Rightarrow> string \<Rightarrow> string \<Rightarrow> 's map_cb_data \<Rightarrow> bool \<Rightarrow>
   kv_error + (nat \<times> 's map_cb_data)" where
  "rspamd_parse_kv_list ifunc default_value chunk d final =
     (case kv_loop ifunc default_value chunk
             \<lparr>kv_data = d, kv_p = 0, kv_c = 0, kv_key = None, line_number = 0\<rparr> of
        Inl e \<Rightarrow> Inl e
      | Inr L \<Rightarrow>
          (let L = (if final then kv_final ifunc default_value chunk L else L)
           in Inr (kv_c L, kv_data L)))"

subsection \<open>Feeding a stream\<close>

text \<open>
  An insertion callback that records its calls, and the data a reader starts with.
\<close>

definition record_insert :: "(string \<times> string) list \<Rightarrow> string \<Rightarrow> string \<Rightarrow> (string \<times> string) list" where
  "record_insert tr k v = tr @ [(k, v)]"

definition start_data :: "(string \<times> string) list map_cb_data" where
  "start_data = \<lparr>state = map_skip_spaces_before_key, cur_data = []\<rparr>"

text \<open>
  Modelled from the spec: the caller of the parser (the map loader) is not among the
  sources. Fed in one call, the whole input goes in with \<open>final\<close> set. Fed byte by byte,
  every call gets the bytes from the tail pointer the previous call returned up to and
  including the next byte, with the state the previous call left; \<open>final\<close> is set on the
  last byte only. The second reader hands over the new byte alone and carries nothing.
\<close>

definition feed_whole ::
  "'s insert_func \<Rightarrow> string \<Rightarrow> string \<Rightarrow> 's map_cb_data \<Rightarrow> kv_error + 's map_cb_data" where
  "feed_whole ifunc default_value bytes d =
     map_sum id snd (rspamd_parse_kv_list ifunc default_value bytes d True)"

fun feed_bytewise ::
  "'s insert_func \<Rightarrow> string \<Rightarrow> string \<Rightarrow> string \<Rightarrow> 's map_cb_data \<Rightarrow> kv_error + 's map_cb_data" where
  "feed_bytewise ifunc default_value tail [] d = Inr d"
| "feed_bytewise ifunc default_value tail [b] d =
     map_sum id snd (rspamd_parse_kv_list ifunc default_value (tail @ [b]) d True)"
| "feed_bytewise ifunc default_value tail (b # bs) d =
     (case rspamd_parse_kv_list ifunc default_value (tail @ [b]) d False of
        Inl e \<Rightarrow> Inl e
      | Inr (c, d') \<Rightarrow> feed_bytewise ifunc default_value (drop c (tail @ [b])) bs d')"

fun feed_bytewise_no_tail ::
  "'s insert_func \<Rightarrow> string \<Rightarrow> string \<Rightarrow> 's map_cb_data \<Rightarrow> kv_error + 's map_cb_data" where
  "feed_bytewise_no_tail ifunc default_value [] d = Inr d"
| "feed_bytewise_no_tail ifunc default_value [b] d =
     map_sum id snd (rspamd_parse_kv_list ifunc default_value [b] d True)"
| "feed_bytewise_no_tail ifunc default_value (b # bs) d =
     (case rspamd_parse_kv_list ifunc default_value [b] d False of
        Inl e \<Rightarrow> Inl e
      | Inr (c, d') \<Rightarrow> feed_bytewise_no_tail ifunc default_value bs d')"

subsection \<open>Rounds of the loop, and where a key is quoted\<close>

text \<open>
  A given number of rounds of the loop, to say where the parser is a few rounds later.
  The parser is inside a quoted key in the two states between the opening and the closing
  quote, and inside the slashes of a slashed key in the two states between the slashes.
\<close>

fun kv_steps ::
  "'s insert_func \<Rightarrow> string \<Rightarrow> string \<Rightarrow> nat \<Rightarrow> 's kv_vars \<Rightarrow> kv_error + 's kv_vars" where
  "kv_steps ifunc default_value chunk 0 L = Inr L"
| "kv_steps ifunc default_value chunk (Suc n) L =
     (case kv_step ifunc default_value chunk L of
        Inl e \<Rightarrow> Inl e
      | Inr L' \<Rightarrow> kv_steps ifunc default_value chunk n L')"

definition in_quotes :: "map_state \<Rightarrow> bool" where
  "in_quotes s \<longleftrightarrow> s = map_read_key_quoted \<or> s = map_backslash_quoted"

definition in_slashes :: "map_state \<Rightarrow> bool" where
  "in_slashes s \<longleftrightarrow> s = map_read_key_slashed \<or> s = map_backslash_slashed"

text \<open>Concrete input: a quoted key and a slashed key with a comment sign inside.\<close>

definition demo_chunk :: string where
  "demo_chunk = CHR 0x22 # ''a#b'' @ [CHR 0x22, CHR 0x0A]"

definition demo_vars :: "map_state \<Rightarrow> nat \<Rightarrow> (string \<times> string) list kv_vars" where
  "demo_vars s n = \<lparr>kv_data = \<lparr>state = s, cur_data = []\<rparr>, kv_p = n, kv_c = 0,
     kv_key = None, line_number = 0\<rparr>"

definition slashed_chunk :: string where
  "slashed_chunk = ''/a#b/ v'' @ [CHR 0x0A]"

subsection \<open>The fingerprint as a function of the keys\<close>

text \<open>
  What an insertion that is not skipped does with the key: intern it if it is new, store
  the value in its slot, hash the slot's key. Read on the list of slot keys and the
  fingerprint state alone this is \<open>fingerprint_step\<close>. \<open>compiles\<close> tells whether the
  regexp helper accepts a key.
\<close>

definition interned_insert :: "'a rspamd_hash_map_helper_scheme \<Rightarrow> string \<Rightarrow> string \<Rightarrow> 'a rspamd_hash_map_helper_scheme" where
  "interned_insert h k v =
     (case kh_get h k of
        None \<Rightarrow> store_value (kh_put_strdup h k) (length (htb h)) v
      | Some i \<Rightarrow> store_value h i v)"

definition fingerprint_step :: "string list \<times> string list \<Rightarrow> string \<Rightarrow> string list \<times> string list" where
  "fingerprint_step st k =
     (case first_index (\<lambda>s. rspamd_strcase_equal s k) (fst st) of
        None \<Rightarrow> (fst st @ [k], snd st @ [k])
      | Some i \<Rightarrow> (fst st, snd st @ [fst st ! i]))"

definition compiles :: "('re, 'db, 'trie) collaborators \<Rightarrow> bool \<Rightarrow> string \<Rightarrow> bool" where
  "compiles cl glob k =
     ((if glob then rspamd_regexp_new cl (rspamd_str_regexp_escape cl k)
       else rspamd_regexp_new cl k) \<noteq> None)"

subsection \<open>Concrete collaborators\<close>

text \<open>
  A stand-in for the digest (FNV-1a over the bytes mixed in) and trivial engines, to run
  the helpers on concrete input.
\<close>

definition demo_digest :: "string list \<Rightarrow> 64 word" where
  "demo_digest xs =
     foldl (\<lambda>h c. (h XOR of_nat (of_char c)) * 0x100000001b3) 0xcbf29ce484222325 (concat xs)"

definition demo_collaborators :: "(string, unit, unit) collaborators" where
  "demo_collaborators =
     \<lparr>rspamd_cryptobox_fast_hash_final = demo_digest,
      rspamd_radix_add_iplist = (\<lambda>k t v r. t),
      rspamd_regexp_new = (\<lambda>k. if k = [] then None else Some k),
      rspamd_str_regexp_escape = (\<lambda>k. k),
      rspamd_regexp_is_utf = (\<lambda>re. False),
      rspamd_regexp_search = (\<lambda>re inp raw. re = inp),
      g_utf8_validate = (\<lambda>inp. True),
      hs_scan = (\<lambda>db inp. ([], True))\<rparr>"

definition demo_regexp :: "(string, unit) rspamd_regexp_map_helper" where
  "demo_regexp = regexp_inserts demo_collaborators False False [(''abc'', ''v'')]"

section \<open>Properties of the memory pool\<close>

lemma call_destructors_eq:
  "call_destructors ds tr = tr @ map (\<lambda>d. (func d, data d)) (filter (\<lambda>d. data d \<noteq> 0) ds)"
  by (induction ds arbitrary: tr) auto

lemma destructors_add_destructors:
  "destructors (add_destructors pool ds) = destructors pool @ ds"
  by (induction ds arbitrary: pool) (auto simp: rspamd_mempool_add_destructor_full_def)

text \<open>
  Claim C1. Take any pool and register the rows \<open>ds\<close> on it, in order, with
  \<open>rspamd_mempool_add_destructor_full\<close>. Teardown (\<open>rspamd_mempool_delete\<close>) and
  enforcement (\<open>rspamd_mempool_destructors_enforce\<close>) each extend the trace of destructor
  calls by exactly the rows of the queue whose data pointer is not null, one call per row,
  in the order of registration. Enforcement leaves the queue empty, so a teardown after it
  calls nothing again.
\<close>

theorem destructors_fire_once_in_order:
  "calls (rspamd_mempool_delete pf rnd (add_destructors pool ds) w) =
     calls w @ map (\<lambda>d. (func d, data d)) (filter (\<lambda>d. data d \<noteq> 0) (destructors pool @ ds))
   \<and> calls (snd (rspamd_mempool_destructors_enforce (add_destructors pool ds) w)) =
     calls w @ map (\<lambda>d. (func d, data d)) (filter (\<lambda>d. data d \<noteq> 0) (destructors pool @ ds))
   \<and> destructors (fst (rspamd_mempool_destructors_enforce (add_destructors pool ds) w)) = []
   \<and> calls (rspamd_mempool_delete pf rnd
         (fst (rspamd_mempool_destructors_enforce (add_destructors pool ds) w))
         (snd (rspamd_mempool_destructors_enforce (add_destructors pool ds) w))) =
     calls (snd (rspamd_mempool_destructors_enforce (add_destructors pool ds) w))"
  by (simp add: rspamd_mempool_delete_def rspamd_mempool_destructors_enforce_def
      call_destructors_eq destructors_add_destructors Let_def)

lemma req_nat:
  assumes "unat n + unat (elt_len pool) + unat (MIN_MEM_ALIGNMENT pf) < 2 ^ 64"
  shows "unat (new_chain_request pf pool n) =
     (if unat n + unat (MIN_MEM_ALIGNMENT pf) \<le> unat (elt_len pool) then unat (elt_len pool)
      else unat n + unat (elt_len pool))"
proof -
  have 1: "unat (n + MIN_MEM_ALIGNMENT pf) = unat n + unat (MIN_MEM_ALIGNMENT pf)"
    using assms by (simp add: unat_add_lem [THEN iffD1])
  have 2: "unat (n + elt_len pool) = unat n + unat (elt_len pool)"
    using assms by (simp add: unat_add_lem [THEN iffD1])
  show ?thesis by (simp add: new_chain_request_def word_le_nat_alt 1 2)
qed

lemma chain_new_ok:
  "r \<noteq> 0 \<Longrightarrow> \<exists>new st'. rspamd_mempool_chain_new pf r t (Some a) st = Inr (new, st')"
  by (simp add: rspamd_mempool_chain_new_def Let_def)

lemma alloc_no_fit:
  assumes am: "\<not> (always_malloc pf \<and> t \<noteq> RSPAMD_MEMPOOL_SHARED)"
    and nofit: "pools pool t = [] \<or> pool_chain_free pf (hd (pools pool t)) < n"
    and cn: "rspamd_mempool_chain_new pf (new_chain_request pf pool n) t m st = Inr (new, st')"
    and st: "st = (if elt_len pool \<ge> n + MIN_MEM_ALIGNMENT pf then mem_pool_stat w
                   else (mem_pool_stat w)
                     \<lparr>oversized_chunks := oversized_chunks (mem_pool_stat w) + 1,
                      fragmented_size := fragmented_size (mem_pool_stat w) +
                        ucast (case pools pool t of [] \<Rightarrow> 0 | c # _ \<Rightarrow> pool_chain_free pf c)\<rparr>)"
  shows "\<exists>w'. memory_pool_alloc_common pf (Some pool) w n t m =
     Inr (pos new, pool\<lparr>pools := (pools pool)(t := new\<lparr>pos := pos new + n\<rparr> # pools pool t)\<rparr>, w')"
proof (cases "pools pool t")
  case Nil
  then show ?thesis using am cn st
    by (auto simp: memory_pool_alloc_common_def Let_def split: if_splits)
next
  case (Cons c cs)
  then have "pool_chain_free pf c < n" using nofit by simp
  then show ?thesis using am cn st Cons
    by (auto simp: memory_pool_alloc_common_def Let_def split: if_splits)
qed

text \<open>
  Claim C2, as amended. When a request of \<open>n > 0\<close> bytes does not fit the head slab of
  its class (outside always-malloc mode) and the allocator delivers a block, the call
  succeeds and prepends the slab that \<open>rspamd_mempool_chain_new\<close> builds for the size
  \<open>new_chain_request\<close>. Without overflow of \<open>gsize\<close> that size is the preferred
  length when the preferred length is at least \<open>n + MIN_MEM_ALIGNMENT\<close>, and
  \<open>n\<close> plus the preferred length otherwise; in both cases it is at least \<open>n\<close>.
\<close>

theorem new_slab_request_size:
  assumes am: "\<not> (always_malloc pf \<and> t \<noteq> RSPAMD_MEMPOOL_SHARED)"
    and nofit: "pools pool t = [] \<or> pool_chain_free pf (hd (pools pool t)) < n"
    and n0: "n \<noteq> 0"
    and nov: "unat n + unat (elt_len pool) + unat (MIN_MEM_ALIGNMENT pf) < 2 ^ 64"
  shows "(\<exists>new st st' w'.
      rspamd_mempool_chain_new pf (new_chain_request pf pool n) t (Some a) st = Inr (new, st')
      \<and> memory_pool_alloc_common pf (Some pool) w n t (Some a) =
          Inr (pos new, pool\<lparr>pools := (pools pool)(t := new\<lparr>pos := pos new + n\<rparr> # pools pool t)\<rparr>, w'))
    \<and> unat (new_chain_request pf pool n) =
        (if unat n + unat (MIN_MEM_ALIGNMENT pf) \<le> unat (elt_len pool) then unat (elt_len pool)
         else unat n + unat (elt_len pool))
    \<and> unat n \<le> unat (new_chain_request pf pool n)"
proof -
  have r: "unat (new_chain_request pf pool n) =
        (if unat n + unat (MIN_MEM_ALIGNMENT pf) \<le> unat (elt_len pool) then unat (elt_len pool)
         else unat n + unat (elt_len pool))"
    using nov by (rule req_nat)
  then have ge: "unat n \<le> unat (new_chain_request pf pool n)" by (simp split: if_splits)
  have "unat n \<noteq> 0" using n0 by (simp add: unat_eq_0)
  then have "unat (new_chain_request pf pool n) \<noteq> 0" using ge by linarith
  then have r0: "new_chain_request pf pool n \<noteq> 0" by (simp add: unat_eq_0)
  define st where "st = (if elt_len pool \<ge> n + MIN_MEM_ALIGNMENT pf then mem_pool_stat w
                   else (mem_pool_stat w)
                     \<lparr>oversized_chunks := oversized_chunks (mem_pool_stat w) + 1,
                      fragmented_size := fragmented_size (mem_pool_stat w) +
                        ucast (case pools pool t of [] \<Rightarrow> 0 | c # _ \<Rightarrow> pool_chain_free pf c)\<rparr>)"
  obtain new st' where cn:
    "rspamd_mempool_chain_new pf (new_chain_request pf pool n) t (Some a) st = Inr (new, st')"
    using chain_new_ok [OF r0] by blast
  from alloc_no_fit [OF am nofit cn st_def] cn r ge show ?thesis by blast
qed

text \<open>
  The claim as written fails for a request that is not oversized: with 4 KiB slabs and
  a 16-byte request on an empty chain the size asked for is 4096, not
  \<open>max 4096 (16 + 4096) = 4112\<close>, and the slab that results has 4104 usable bytes.
\<close>

theorem new_slab_request_counterexample:
  "\<not> always_malloc demo_platform \<and> pools demo_pool RSPAMD_MEMPOOL_NORMAL = []
   \<and> new_chain_request demo_platform demo_pool 16 = 4096
   \<and> max (elt_len demo_pool) (16 + elt_len demo_pool) = 4112
   \<and> new_chain_request demo_platform demo_pool 16 \<noteq> max (elt_len demo_pool) (16 + elt_len demo_pool)
   \<and> (case memory_pool_alloc_common demo_platform (Some demo_pool) demo_world 16
              RSPAMD_MEMPOOL_NORMAL (Some 0x10000) of
         Inl _ \<Rightarrow> []
       | Inr (p, pool', w') \<Rightarrow> map slice_size (pools pool' RSPAMD_MEMPOOL_NORMAL)) = [4104]"
  by (simp add: demo_platform_def demo_pool_def demo_world_def new_chain_request_def
      memory_pool_alloc_common_def rspamd_mempool_chain_new_def Let_def)

theorem new_slab_request_size_witness:
  "\<not> (always_malloc demo_platform \<and> RSPAMD_MEMPOOL_NORMAL \<noteq> RSPAMD_MEMPOOL_SHARED)
   \<and> (pools demo_pool RSPAMD_MEMPOOL_NORMAL = [] \<or>
        pool_chain_free demo_platform (hd (pools demo_pool RSPAMD_MEMPOOL_NORMAL)) < 16)
   \<and> (16 :: gsize) \<noteq> 0
   \<and> unat (16 :: gsize) + unat (elt_len demo_pool) + unat (MIN_MEM_ALIGNMENT demo_platform) < 2 ^ 64
   \<and> unat (new_chain_request demo_platform demo_pool 16) = 4096
   \<and> unat (16 :: gsize) \<le> unat (new_chain_request demo_platform demo_pool 16)"
proof -
  have 1: "\<not> (always_malloc demo_platform \<and> RSPAMD_MEMPOOL_NORMAL \<noteq> RSPAMD_MEMPOOL_SHARED)"
    by (simp add: demo_platform_def)
  have 2: "pools demo_pool RSPAMD_MEMPOOL_NORMAL = [] \<or>
        pool_chain_free demo_platform (hd (pools demo_pool RSPAMD_MEMPOOL_NORMAL)) < 16"
    by (simp add: demo_pool_def)
  have 3: "(16 :: gsize) \<noteq> 0" by simp
  have 4: "unat (16 :: gsize) + unat (elt_len demo_pool) + unat (MIN_MEM_ALIGNMENT demo_platform) < 2 ^ 64"
    by (simp add: demo_pool_def demo_platform_def)
  from new_slab_request_size [OF 1 2 3 4] 1 2 3 4 show ?thesis
    by (simp add: demo_pool_def demo_platform_def)
qed

lemma cmp_int_sign:
  assumes "- (2 ^ 31) \<le> sint a - sint b" and "sint a - sint b < 2 ^ 31"
  shows "sint (cmp_int a b) \<le> 0 \<longleftrightarrow> sint a \<le> sint b"
proof -
  have "sint (a - b) = sint a - sint b"
    using assms by (simp add: sint_word_ariths signed_take_bit_int_eq_self)
  then show ?thesis by (simp add: cmp_int_def)
qed

lemma mset_msort_merge: "mset (msort_merge cmp xs ys) = mset xs + mset ys"
  by (induction cmp xs ys rule: msort_merge.induct) auto

lemma set_msort_merge: "set (msort_merge cmp xs ys) = set xs \<union> set ys"
  by (induction cmp xs ys rule: msort_merge.induct) auto

lemma sorted_msort_merge:
  assumes "sorted (map sint xs)" and "sorted (map sint ys)"
    and "\<forall>a\<in>set xs \<union> set ys. \<forall>b\<in>set xs \<union> set ys.
           - (2 ^ 31) \<le> sint a - sint b \<and> sint a - sint b < 2 ^ 31"
  shows "sorted (map sint (msort_merge cmp_int xs ys))"
  using assms
proof (induction cmp_int xs ys rule: msort_merge.induct)
  case (1 ys)
  then show ?case by simp
next
  case (2 v va)
  then show ?case by simp
next
  case (3 x xs y ys)
  have c: "sint (cmp_int x y) \<le> 0 \<longleftrightarrow> sint x \<le> sint y"
    using 3(5) by (intro cmp_int_sign) auto
  show ?case
  proof (cases "sint (cmp_int x y) \<le> 0")
    case True
    then have le: "sint x \<le> sint y" using c by simp
    have "sorted (map sint (msort_merge cmp_int xs (y # ys)))"
      using 3(1) [OF True] 3(3,4,5) by auto
    moreover have "\<forall>z\<in>set (msort_merge cmp_int xs (y # ys)). sint x \<le> sint z"
      using 3(3,4) le by (auto simp: set_msort_merge)
    ultimately show ?thesis using True by simp
  next
    case False
    then have le: "sint y \<le> sint x" using c by simp
    have "sorted (map sint (msort_merge cmp_int (x # xs) ys))"
      using 3(2) [OF False] 3(3,4,5) by auto
    moreover have "\<forall>z\<in>set (msort_merge cmp_int (x # xs) ys). sint y \<le> sint z"
      using 3(3,4) le by (auto simp: set_msort_merge)
    ultimately show ?thesis using False by simp
  qed
qed

lemma mset_qsort: "mset (qsort cmp xs) = mset xs"
proof (induction cmp xs rule: qsort.induct)
  case (1 cmp xs)
  show ?case
  proof (cases "length xs \<le> 1")
    case True
    then show ?thesis by (subst qsort.simps) simp
  next
    case False
    have "mset (take (length xs div 2) xs) + mset (drop (length xs div 2) xs) = mset xs"
      by (metis append_take_drop_id mset_append)
    then show ?thesis using False 1 [OF False]
      by (subst qsort.simps) (simp add: mset_msort_merge)
  qed
qed

lemma set_qsort: "set (qsort cmp xs) = set xs"
  by (metis mset_qsort set_mset_mset)

lemma sorted_qsort:
  assumes "\<forall>a\<in>set xs. \<forall>b\<in>set xs. - (2 ^ 31) \<le> sint a - sint b \<and> sint a - sint b < 2 ^ 31"
  shows "sorted (map sint (qsort cmp_int xs))"
  using assms
proof (induction cmp_int xs rule: qsort.induct)
  case (1 xs)
  show ?case
  proof (cases "length xs \<le> 1")
    case True
    then have "xs = [] \<or> (\<exists>x. xs = [x])" by (cases xs) auto
    then show ?thesis using True by (subst qsort.simps) auto
  next
    case False
    let ?l = "take (length xs div 2) xs" and ?r = "drop (length xs div 2) xs"
    have sub: "set ?l \<subseteq> set xs" "set ?r \<subseteq> set xs"
      by (auto dest: in_set_takeD in_set_dropD)
    have l: "sorted (map sint (qsort cmp_int ?l))"
      using 1(1) [OF False] 1(3) sub by blast
    have r: "sorted (map sint (qsort cmp_int ?r))"
      using 1(2) [OF False] 1(3) sub by blast
    have "\<forall>a\<in>set (qsort cmp_int ?l) \<union> set (qsort cmp_int ?r).
          \<forall>b\<in>set (qsort cmp_int ?l) \<union> set (qsort cmp_int ?r).
           - (2 ^ 31) \<le> sint a - sint b \<and> sint a - sint b < 2 ^ 31"
      using 1(3) sub by (simp add: set_qsort) blast
    from sorted_msort_merge [OF l r this] False show ?thesis
      by (subst qsort.simps) simp
  qed
qed

lemma qsort_cmp_int_sorts:
  assumes "no_wrap xs"
  shows "qsort cmp_int xs = sort_key sint xs"
proof -
  have nw: "\<forall>a\<in>set xs. \<forall>b\<in>set xs. - (2 ^ 31) \<le> sint a - sint b \<and> sint a - sint b < 2 ^ 31"
    using assms by (simp add: no_wrap_def list_all_iff)
  have "mset (map sint (qsort cmp_int xs)) = mset (map sint xs)"
    by (simp add: mset_qsort)
  then have 1: "sort (map sint xs) = map sint (qsort cmp_int xs)"
    using sorted_qsort [OF nw] by (intro properties_for_sort) auto
  have "mset (map sint (sort_key sint xs)) = mset (map sint xs)" by simp
  then have 2: "sort (map sint xs) = map sint (sort_key sint xs)"
    by (intro properties_for_sort) auto
  have "inj (sint :: gint \<Rightarrow> int)" by (auto simp: inj_on_def signed_word_eqI)
  then have "inj (map (sint :: gint \<Rightarrow> int))" by simp
  then show ?thesis using 1 2 by (metis injD)
qed

lemma adjust_entry_no_wrap:
  assumes "no_wrap (map (\<lambda>x. fragmentation x - leftover x) (elts e))"
  shows "rspamd_mempool_adjust_entry rnd e = adjust_entry_ascending rnd e"
  by (simp add: rspamd_mempool_adjust_entry_def adjust_entry_ascending_def
      qsort_cmp_int_sorts [OF assms])

text \<open>
  Claim C6. The adjustment follows the steps of the claim, and where no difference of two
  net-waste values overflows it is the adjustment of the specification
  (\<open>adjust_entry_no_wrap\<close>). But \<open>cmp_int\<close> compares by subtracting, and on the row
  \<open>wrap_row\<close> the difference of 1400000000 and -1600000000 wraps: the array comes out of
  \<open>qsort\<close> unsorted, with the negative values behind the positive ones. With the random
  index 4 the code then picks -1600000000 as the upper quantile and 0 as the lower one and
  divides the suggestion of 4096 by 1.5, which leaves 2730; sorted ascending, both
  quantiles are 0 and the suggestion is multiplied by 1.5, which gives 6144.
\<close>

theorem adjust_entry_sort_wraps:
  "map sint (qsort cmp_int (map (\<lambda>x. fragmentation x - leftover x) (elts wrap_row))) =
      replicate 48 0 @ replicate 6 1400000000 @ replicate 4 (- 1600000000) @ replicate 6 0
   \<and> cur_suggestion (rspamd_mempool_adjust_entry 4 wrap_row) = 2730
   \<and> map sint (sort_key sint (map (\<lambda>x. fragmentation x - leftover x) (elts wrap_row))) =
      replicate 4 (- 1600000000) @ replicate 54 0 @ replicate 6 1400000000
   \<and> cur_suggestion (adjust_entry_ascending 4 wrap_row) = 6144"
  by code_simp

lemma clamp_range:
  "1024 \<le> cur_suggestion (rspamd_mempool_adjust_entry rnd e) \<and>
   cur_suggestion (rspamd_mempool_adjust_entry rnd e) \<le> 10485760"
  by (simp add: rspamd_mempool_adjust_entry_def Let_def word_le_nat_alt word_less_nat_alt)

lemma entry_new_range:
  assumes "getpagesize pf \<le> 10485760"
  shows "1024 \<le> cur_suggestion (rspamd_mempool_entry_new pf l) \<and>
   cur_suggestion (rspamd_mempool_entry_new pf l) \<le> 10485760"
proof -
  let ?v = "max (getpagesize pf) FIXED_POOL_SIZE"
  have b: "4096 \<le> ?v" "?v \<le> 10485760" using assms by (auto simp: FIXED_POOL_SIZE_def)
  have u: "uint (word_of_int ?v :: 32 word) = ?v"
    using b by (simp add: uint_word_of_int take_bit_int_eq_self)
  have "(1024 :: 32 word) \<le> word_of_int ?v \<and> (word_of_int ?v :: 32 word) \<le> 10485760"
    using b u by (simp add: word_le_def)
  then show ?thesis by (simp add: rspamd_mempool_entry_new_def)
qed

lemma add_fragmentation_suggestion [simp]:
  "cur_suggestion (add_fragmentation e n) = cur_suggestion e"
  by (simp add: add_fragmentation_def Let_def)

lemma alloc_suggestion:
  "memory_pool_alloc_common pf po w n t m = Inr (p, pool', w') \<Longrightarrow>
   cur_suggestion (entry w') = cur_suggestion (entry w)"
  by (auto simp: memory_pool_alloc_common_def Let_def
      split: option.splits if_splits sum.splits prod.splits)

lemma delete_suggestion:
  "cur_suggestion (delete_update_entry pf rnd pool e) = cur_suggestion e \<or>
   (1024 \<le> cur_suggestion (delete_update_entry pf rnd pool e) \<and>
    cur_suggestion (delete_update_entry pf rnd pool e) \<le> 10485760)"
  using clamp_range by (auto simp: delete_update_entry_def Let_def split: list.splits)

lemma delete_entry [simp]:
  "entry (rspamd_mempool_delete pf rnd pool w) = delete_update_entry pf rnd pool (entry w)"
  by (simp add: rspamd_mempool_delete_def Let_def)

lemma entry_new_lower:
  assumes "getpagesize pf < 2 ^ 31"
  shows "1024 \<le> cur_suggestion (rspamd_mempool_entry_new pf l)"
proof -
  let ?v = "max (getpagesize pf) FIXED_POOL_SIZE"
  have b: "4096 \<le> ?v" "?v < 2 ^ 31" using assms by (auto simp: FIXED_POOL_SIZE_def)
  have u: "uint (word_of_int ?v :: 32 word) = ?v"
    using b by (simp add: uint_word_of_int take_bit_int_eq_self)
  have "(1024 :: 32 word) \<le> word_of_int ?v"
    using b u by (simp add: word_le_def)
  then show ?thesis by (simp add: rspamd_mempool_entry_new_def)
qed

lemma row_reach_suggestion:
  assumes "row_reach pf e"
    and "\<And>l. Q (cur_suggestion (rspamd_mempool_entry_new pf l))"
    and "\<And>rnd e'. Q (cur_suggestion (rspamd_mempool_adjust_entry rnd e'))"
  shows "Q (cur_suggestion e)"
  using assms(1)
proof (induction rule: row_reach.induct)
  case (row_new l)
  show ?case by (rule assms(2))
next
  case (row_alloc w po n t m p pool' w')
  then show ?case by (simp add: alloc_suggestion)
next
  case (row_delete w rnd pool)
  have "cur_suggestion (delete_update_entry pf rnd pool (entry w)) = cur_suggestion (entry w)
      \<or> (\<exists>e'. cur_suggestion (delete_update_entry pf rnd pool (entry w)) =
            cur_suggestion (rspamd_mempool_adjust_entry rnd e'))"
    by (auto simp: delete_update_entry_def Let_def split: list.splits)
  then show ?case using row_delete.IH assms(3) by auto
qed

lemma row_reach_teardowns:
  "row_reach pf (entry w) \<Longrightarrow> row_reach pf (entry (teardowns pf rnd pool n w))"
  by (induction n arbitrary: w) (auto intro: row_delete)

text \<open>
  Claim C7. Every adjustment leaves the suggestion between 1 KiB and 10 MiB, whatever
  the row and the random index were: the clamp is its last step. Creation sets the
  suggestion to the larger of the page size and 4096 and allocation never writes it, so
  every row that the process can hold has a suggestion of at least 1 KiB, and of at most
  10 MiB on a platform whose page size does not exceed 10 MiB.
\<close>

theorem suggestion_in_range:
  "(getpagesize pf \<le> 10485760 \<and> row_reach pf e \<longrightarrow>
      1024 \<le> cur_suggestion e \<and> cur_suggestion e \<le> 10485760)
   \<and> (getpagesize pf < 2 ^ 31 \<and> row_reach pf e \<longrightarrow> 1024 \<le> cur_suggestion e)
   \<and> 1024 \<le> cur_suggestion (rspamd_mempool_adjust_entry rnd e')
   \<and> cur_suggestion (rspamd_mempool_adjust_entry rnd e') \<le> 10485760"
proof -
  have a: "1024 \<le> cur_suggestion e \<and> cur_suggestion e \<le> 10485760"
    if "getpagesize pf \<le> 10485760" and "row_reach pf e"
    using that(2) entry_new_range [OF that(1)] clamp_range
    by (rule row_reach_suggestion [where Q = "\<lambda>s. 1024 \<le> s \<and> s \<le> 10485760"])
  have b: "1024 \<le> cur_suggestion e" if "getpagesize pf < 2 ^ 31" and "row_reach pf e"
    using that(2) entry_new_lower [OF that(1)] clamp_range [THEN conjunct1]
    by (rule row_reach_suggestion [where Q = "\<lambda>s. 1024 \<le> s"])
  show ?thesis using a b clamp_range [of rnd e'] by blast
qed

text \<open>
  The row after an allocation and 64 teardowns of a pool with a 1 MiB slab: the ring has
  wrapped, the adjustment has divided 4096 down to 10 and the clamp has raised it to 1024.
\<close>

lemma slab_state_alloc:
  "memory_pool_alloc_common demo_platform (Some (demo_pool\<lparr>elt_len := 1048576\<rparr>))
     demo_world 16 RSPAMD_MEMPOOL_NORMAL (Some 0x10000) =
   Inr (0x10028, fst slab_state, snd slab_state)"
  unfolding slab_state_def
  by (simp add: demo_platform_def demo_pool_def demo_world_def new_chain_request_def
      memory_pool_alloc_common_def rspamd_mempool_chain_new_def align_ptr_def Let_def)

lemma teardowns_suggestion:
  "cur_suggestion (entry (teardowns demo_platform 4 (fst slab_state) 63 (snd slab_state))) = 4096
   \<and> cur_suggestion (entry (teardowns demo_platform 4 (fst slab_state) 64 (snd slab_state))) = 1024
   \<and> div_assign 4096 1048560 = 10"
  by code_simp

theorem suggestion_in_range_witness:
  "getpagesize demo_platform \<le> 10485760
   \<and> row_reach demo_platform (entry (teardowns demo_platform 4 (fst slab_state) 64 (snd slab_state)))
   \<and> cur_suggestion (entry (teardowns demo_platform 4 (fst slab_state) 63 (snd slab_state))) = 4096
   \<and> div_assign 4096 1048560 = 10
   \<and> cur_suggestion (entry (teardowns demo_platform 4 (fst slab_state) 64 (snd slab_state))) = 1024
   \<and> 1024 \<le> cur_suggestion (entry (teardowns demo_platform 4 (fst slab_state) 64 (snd slab_state)))
   \<and> cur_suggestion (entry (teardowns demo_platform 4 (fst slab_state) 64 (snd slab_state)))
        \<le> 10485760"
proof -
  have 1: "getpagesize demo_platform \<le> 10485760" by (simp add: demo_platform_def)
  have "row_reach demo_platform (entry demo_world)"
    unfolding demo_world_def by (simp add: row_new)
  then have "row_reach demo_platform (entry (snd slab_state))"
    using slab_state_alloc by (rule row_alloc)
  then have 2: "row_reach demo_platform
      (entry (teardowns demo_platform 4 (fst slab_state) 64 (snd slab_state)))"
    by (rule row_reach_teardowns)
  from suggestion_in_range [of demo_platform
      "entry (teardowns demo_platform 4 (fst slab_state) 64 (snd slab_state))"] 1 2
  have "1024 \<le> cur_suggestion (entry (teardowns demo_platform 4 (fst slab_state) 64 (snd slab_state)))
    \<and> cur_suggestion (entry (teardowns demo_platform 4 (fst slab_state) 64 (snd slab_state)))
        \<le> 10485760"
    by blast
  then show ?thesis using 1 2 teardowns_suggestion by blast
qed

section \<open>Properties of the map helpers\<close>

lemma first_index_None_iff: "first_index P xs = None \<longleftrightarrow> (\<forall>x\<in>set xs. \<not> P x)"
  by (induction xs) auto

lemma first_index_SomeD:
  "first_index P xs = Some i \<Longrightarrow> i < length xs \<and> P (xs ! i)"
  by (induction xs arbitrary: i) (auto split: if_splits)

lemma first_index_snoc_new:
  "first_index P xs = None \<Longrightarrow> P y \<Longrightarrow> first_index P (xs @ [y]) = Some (length xs)"
  by (induction xs) (auto split: if_splits)

lemma rspamd_strcase_equal_refl [simp]: "rspamd_strcase_equal k k"
  by (simp add: rspamd_strcase_equal_def)

lemma slot_keys_alt: "slot_keys h = map (\<lambda>kp. pool_strs h ! kp) (map fst (htb h))"
  by (simp add: slot_keys_def case_prod_unfold comp_def)

lemma length_slot_keys [simp]: "length (slot_keys h) = length (htb h)"
  by (simp add: slot_keys_def)

lemma map_fst_update_same: "map fst (xs[i := (fst (xs ! i), y)]) = map fst xs"
proof (cases "i < length xs")
  case True
  then show ?thesis by (simp add: map_update list_update_same_conv)
next
  case False
  then show ?thesis by (simp add: list_update_beyond not_less)
qed

lemma slot_keys_store_value [simp]: "slot_keys (store_value h i v) = slot_keys h"
  by (simp add: slot_keys_alt store_value_def Let_def map_fst_update_same)

lemma kh_get_store_value [simp]: "kh_get (store_value h i v) k = kh_get h k"
  by (simp add: kh_get_def)

lemma slot_keys_kh_put_strdup:
  assumes "keys_ok h"
  shows "slot_keys (kh_put_strdup h k) = slot_keys h @ [k]"
proof -
  have "\<forall>x\<in>set (htb h). fst x < length (pool_strs h)"
    using assms by (auto simp: keys_ok_def list_all_iff)
  then show ?thesis
    by (simp add: slot_keys_def kh_put_strdup_def case_prod_unfold nth_append)
qed

lemma keys_ok_kh_put_strdup: "keys_ok h \<Longrightarrow> keys_ok (kh_put_strdup h k)"
  by (auto simp: keys_ok_def kh_put_strdup_def list_all_iff)

lemma keys_ok_alt:
  "keys_ok g \<longleftrightarrow> list_all (\<lambda>kp. kp < length (pool_strs g)) (map fst (htb g))"
  by (simp add: keys_ok_def list_all_iff case_prod_unfold)

lemma keys_ok_store_value: "keys_ok h \<Longrightarrow> keys_ok (store_value h i v)"
proof -
  assume a: "keys_ok h"
  have 1: "map fst (htb (store_value h i v)) = map fst (htb h)"
    by (simp add: store_value_def Let_def map_fst_update_same)
  have 2: "pool_strs (store_value h i v) = pool_strs h"
    by (simp add: store_value_def Let_def)
  show ?thesis using a unfolding keys_ok_alt 1 2 .
qed

lemma kh_get_kh_put_strdup_new:
  assumes "keys_ok h" and "kh_get h k = None"
  shows "kh_get (kh_put_strdup h k) k = Some (length (htb h))"
  using assms
  by (simp add: kh_get_def slot_keys_kh_put_strdup first_index_snoc_new)

lemma insert_hash_absent:
  assumes "kh_get ht k = None"
  shows "rspamd_map_helper_insert_hash ht k v = store_value (kh_put_strdup ht k) (length (htb ht)) v"
  using assms by (simp add: rspamd_map_helper_insert_hash_def)

lemma stored_after_store_value:
  assumes "i < length (htb h)"
  shows "pool_vals (store_value h i v) ! snd (htb (store_value h i v) ! i) =
    \<lparr>hits = 0, key_ptr = fst (htb h ! i), value_bytes = v\<rparr>"
  using assms by (simp add: store_value_def Let_def)

lemma keys_ok_new_hash: "keys_ok rspamd_map_helper_new_hash"
  by (simp add: keys_ok_def rspamd_map_helper_new_hash_def)

lemma keys_ok_insert_hash:
  "keys_ok ht \<Longrightarrow> keys_ok (rspamd_map_helper_insert_hash ht k v)"
  by (simp add: rspamd_map_helper_insert_hash_def keys_ok_store_value keys_ok_kh_put_strdup
      split: option.splits)

lemma keys_ok_match_hash:
  "keys_ok m \<Longrightarrow> rspamd_match_hash_map (Some m) k = (r, Some m') \<Longrightarrow> keys_ok m'"
  by (auto simp: rspamd_match_hash_map_def keys_ok_def Let_def split: option.splits)

lemma keys_ok_hash_inserts: "keys_ok (hash_inserts kvs)"
proof -
  have "keys_ok h \<Longrightarrow>
      keys_ok (foldl (\<lambda>h (k, v). rspamd_map_helper_insert_hash h k v) h kvs)" for h
    by (induction kvs arbitrary: h) (auto simp: keys_ok_insert_hash)
  then show ?thesis by (simp add: hash_inserts_def keys_ok_new_hash)
qed

text \<open>
  Claim C4. In every state of a hash helper whose key pointers are interned (the fresh
  helper is one, and insertions and lookups keep it so), inserting the same pair a second
  time changes nothing: the table, the pool with its records and their hit counters, and
  the fingerprint state are those left by the first insertion.
\<close>

theorem insert_hash_twice:
  assumes ok: "keys_ok ht"
  shows "rspamd_map_helper_insert_hash (rspamd_map_helper_insert_hash ht k v) k v =
         rspamd_map_helper_insert_hash ht k v"
proof (cases "kh_get ht k")
  case None
  let ?h1 = "kh_put_strdup ht k"
  let ?h2 = "store_value ?h1 (length (htb ht)) v"
  have g: "kh_get ?h2 k = Some (length (htb ht))"
    using ok None by (simp add: kh_get_kh_put_strdup_new)
  have l: "length (htb ht) < length (htb ?h1)" by (simp add: kh_put_strdup_def)
  have "value_bytes (pool_vals ?h2 ! snd (htb ?h2 ! length (htb ht))) = v"
    using stored_after_store_value [OF l] by simp
  then have "rspamd_map_helper_insert_hash ?h2 k v = ?h2"
    using g by (simp add: rspamd_map_helper_insert_hash_def)
  then show ?thesis using None by (simp add: insert_hash_absent)
next
  case (Some i)
  then have l: "i < length (htb ht)"
    using first_index_SomeD [of _ "slot_keys ht" i] by (simp add: kh_get_def)
  show ?thesis
  proof (cases "v = value_bytes (pool_vals ht ! snd (htb ht ! i))")
    case True
    then show ?thesis using Some by (simp add: rspamd_map_helper_insert_hash_def)
  next
    case False
    let ?h2 = "store_value ht i v"
    have 1: "rspamd_map_helper_insert_hash ht k v = ?h2"
      using Some False by (simp add: rspamd_map_helper_insert_hash_def)
    have g: "kh_get ?h2 k = Some i" using Some by simp
    have "value_bytes (pool_vals ?h2 ! snd (htb ?h2 ! i)) = v"
      using stored_after_store_value [OF l] by simp
    then have "rspamd_map_helper_insert_hash ?h2 k v = ?h2"
      using g by (simp add: rspamd_map_helper_insert_hash_def)
    then show ?thesis using 1 by simp
  qed
qed

text \<open>
  Claim C10. When the key is present in slot \<open>i\<close> and the new value differs from the
  stored one, the insertion puts a new record with a zero hit counter into the slot; a
  lookup of the key then returns the new value and leaves that counter at 1, its own hit.
  The key pointer of the slot is the one it had, nothing is interned, and the string it
  points to, equal to the key up to case, is mixed into the fingerprint once more.
\<close>

theorem insert_hash_replaces:
  assumes g: "kh_get ht k = Some i"
    and ne: "v \<noteq> value_bytes (pool_vals ht ! snd (htb ht ! i))"
  shows "pool_vals (rspamd_map_helper_insert_hash ht k v) !
           snd (htb (rspamd_map_helper_insert_hash ht k v) ! i) =
           \<lparr>hits = 0, key_ptr = fst (htb ht ! i), value_bytes = v\<rparr>
    \<and> rspamd_match_hash_map (Some (rspamd_map_helper_insert_hash ht k v)) k =
        (Some v,
         Some ((rspamd_map_helper_insert_hash ht k v)
           \<lparr>pool_vals := pool_vals ht @ [\<lparr>hits = 1, key_ptr = fst (htb ht ! i), value_bytes = v\<rparr>]\<rparr>))
    \<and> fst (htb (rspamd_map_helper_insert_hash ht k v) ! i) = fst (htb ht ! i)
    \<and> pool_strs (rspamd_map_helper_insert_hash ht k v) = pool_strs ht
    \<and> rspamd_strcase_equal (pool_strs ht ! fst (htb ht ! i)) k
    \<and> hst (rspamd_map_helper_insert_hash ht k v) = hst ht @ [pool_strs ht ! fst (htb ht ! i)]"
proof -
  let ?h2 = "store_value ht i v"
  have l: "i < length (htb ht)"
    using g first_index_SomeD [of _ "slot_keys ht" i] by (simp add: kh_get_def)
  have 1: "rspamd_map_helper_insert_hash ht k v = ?h2"
    using g ne by (simp add: rspamd_map_helper_insert_hash_def)
  have g2: "kh_get ?h2 k = Some i" using g by simp
  have st: "pool_vals ?h2 ! snd (htb ?h2 ! i) = \<lparr>hits = 0, key_ptr = fst (htb ht ! i), value_bytes = v\<rparr>"
    using stored_after_store_value [OF l] .
  have sn: "snd (htb ?h2 ! i) = length (pool_vals ht)"
    using l by (simp add: store_value_def Let_def)
  have pv: "pool_vals ?h2 = pool_vals ht @ [\<lparr>hits = 0, key_ptr = fst (htb ht ! i), value_bytes = v\<rparr>]"
    by (simp add: store_value_def Let_def)
  have m: "rspamd_match_hash_map (Some ?h2) k =
        (Some v, Some (?h2\<lparr>pool_vals := pool_vals ht @ [\<lparr>hits = 1, key_ptr = fst (htb ht ! i), value_bytes = v\<rparr>]\<rparr>))"
    using g2 st by (simp add: rspamd_match_hash_map_def Let_def sn pv)
  have k: "fst (htb ?h2 ! i) = fst (htb ht ! i)"
    using l by (simp add: store_value_def Let_def)
  have sk: "slot_keys ht ! i = pool_strs ht ! fst (htb ht ! i)"
    using l by (simp add: slot_keys_def case_prod_unfold)
  have eq: "rspamd_strcase_equal (pool_strs ht ! fst (htb ht ! i)) k"
    using g first_index_SomeD [of "\<lambda>s. rspamd_strcase_equal s k" "slot_keys ht" i] sk
    by (simp add: kh_get_def)
  show ?thesis using st m k eq by (simp add: 1) (simp add: store_value_def Let_def)
qed


lemma demo_hash_eq: "demo_hash = \<lparr>pool_strs = [''foo''],
   pool_vals = [\<lparr>hits = 0, key_ptr = 0, value_bytes = ''bar''\<rparr>], htb = [(0, 0)], hst = [''foo'']\<rparr>"
  by (simp add: demo_hash_def hash_inserts_def rspamd_map_helper_insert_hash_def kh_get_def
      slot_keys_def rspamd_map_helper_new_hash_def store_value_def kh_put_strdup_def Let_def)

lemma strcase_foo_FOO: "rspamd_strcase_equal ''foo'' ''FOO''"
  by code_simp

theorem insert_hash_twice_witness:
  "keys_ok demo_hash \<and>
   rspamd_map_helper_insert_hash (rspamd_map_helper_insert_hash demo_hash ''baz'' ''qux'') ''baz'' ''qux'' =
     rspamd_map_helper_insert_hash demo_hash ''baz'' ''qux''"
proof -
  have 1: "keys_ok demo_hash" by (simp add: demo_hash_eq keys_ok_def)
  from insert_hash_twice [OF 1] 1 show ?thesis by simp
qed

theorem insert_hash_replaces_witness:
  "kh_get demo_hash ''FOO'' = Some 0
   \<and> ''qux'' \<noteq> value_bytes (pool_vals demo_hash ! snd (htb demo_hash ! 0))
   \<and> rspamd_match_hash_map (Some (rspamd_map_helper_insert_hash demo_hash ''FOO'' ''qux'')) ''FOO'' =
        (Some ''qux'',
         Some \<lparr>pool_strs = [''foo''],
            pool_vals = [\<lparr>hits = 0, key_ptr = 0, value_bytes = ''bar''\<rparr>,
                         \<lparr>hits = 1, key_ptr = 0, value_bytes = ''qux''\<rparr>],
            htb = [(0, 1)], hst = [''foo'', ''foo'']\<rparr>)"
proof -
  have 1: "kh_get demo_hash ''FOO'' = Some 0"
    by (simp add: demo_hash_eq kh_get_def slot_keys_def strcase_foo_FOO)
  have 2: "''qux'' \<noteq> value_bytes (pool_vals demo_hash ! snd (htb demo_hash ! 0))"
    by (simp add: demo_hash_eq)
  have 3: "rspamd_map_helper_insert_hash demo_hash ''FOO'' ''qux'' =
     \<lparr>pool_strs = [''foo''],
            pool_vals = [\<lparr>hits = 0, key_ptr = 0, value_bytes = ''bar''\<rparr>,
                         \<lparr>hits = 0, key_ptr = 0, value_bytes = ''qux''\<rparr>],
            htb = [(0, 1)], hst = [''foo'', ''foo'']\<rparr>"
    using 1 by (simp add: rspamd_map_helper_insert_hash_def) (simp add: demo_hash_eq store_value_def Let_def)
  from insert_hash_replaces [OF 1 2] 1 2 show ?thesis
    by (simp add: 3) (simp add: demo_hash_eq)
qed

lemma hst_store_value:
  "i < length (htb h) \<Longrightarrow> hst (store_value h i v) = hst h @ [slot_keys h ! i]"
  by (simp add: store_value_def Let_def slot_keys_def case_prod_unfold)

lemma interned_insert_effect:
  assumes ok: "keys_ok h"
  shows "keys_ok (interned_insert h k v) \<and>
     (slot_keys (interned_insert h k v), hst (interned_insert h k v)) =
        fingerprint_step (slot_keys h, hst h) k"
proof (cases "kh_get h k")
  case None
  let ?h1 = "kh_put_strdup h k"
  have l: "length (htb h) < length (htb ?h1)" by (simp add: kh_put_strdup_def)
  have sk: "slot_keys ?h1 = slot_keys h @ [k]" using ok by (rule slot_keys_kh_put_strdup)
  have "hst (store_value ?h1 (length (htb h)) v) = hst ?h1 @ [slot_keys ?h1 ! length (htb h)]"
    using l by (rule hst_store_value)
  also have "\<dots> = hst h @ [k]" by (simp add: sk nth_append) (simp add: kh_put_strdup_def)
  finally have hs: "hst (store_value ?h1 (length (htb h)) v) = hst h @ [k]" .
  have "keys_ok (store_value ?h1 (length (htb h)) v)"
    using ok by (simp add: keys_ok_store_value keys_ok_kh_put_strdup)
  then show ?thesis using None hs sk
    by (simp add: interned_insert_def fingerprint_step_def) (simp add: kh_get_def)
next
  case (Some i)
  then have l: "i < length (htb h)"
    using first_index_SomeD [of _ "slot_keys h" i] by (simp add: kh_get_def)
  have "keys_ok (store_value h i v)" using ok by (rule keys_ok_store_value)
  then show ?thesis using Some hst_store_value [OF l]
    by (simp add: interned_insert_def fingerprint_step_def) (simp add: kh_get_def)
qed

lemma keys_ok_more [simp]:
  "keys_ok (h\<lparr>trie := t\<rparr>) = keys_ok h"
  "keys_ok (m\<lparr>flag_utf := b\<rparr>) = keys_ok m"
  "keys_ok (m\<lparr>regexps := rs\<rparr>) = keys_ok m"
  "keys_ok (m\<lparr>re_values := vs\<rparr>) = keys_ok m"
  by (simp_all add: keys_ok_def)

lemma slot_keys_more [simp]:
  "slot_keys (h\<lparr>trie := t\<rparr>) = slot_keys h"
  "slot_keys (m\<lparr>flag_utf := b\<rparr>) = slot_keys m"
  "slot_keys (m\<lparr>regexps := rs\<rparr>) = slot_keys m"
  "slot_keys (m\<lparr>re_values := vs\<rparr>) = slot_keys m"
  by (simp_all add: slot_keys_def)

lemma insert_radix_interned:
  "insert_radix_common cl b r k v =
     (interned_insert r k v)\<lparr>trie := rspamd_radix_add_iplist cl k (trie (interned_insert r k v))
        (length (pool_vals r)) b\<rparr>"
  by (cases "kh_get r k")
     (simp_all add: insert_radix_common_def interned_insert_def Let_def kh_put_strdup_def)

lemma insert_radix_effect:
  assumes "keys_ok r"
  shows "keys_ok (rspamd_map_helper_insert_radix cl r k v) \<and>
     (slot_keys (rspamd_map_helper_insert_radix cl r k v), hst (rspamd_map_helper_insert_radix cl r k v)) =
       fingerprint_step (slot_keys r, hst r) k"
  using interned_insert_effect [OF assms, of k v]
  by (simp add: rspamd_map_helper_insert_radix_def insert_radix_interned)

lemma radix_fold:
  assumes "keys_ok r"
  shows "keys_ok (foldl (\<lambda>h (k, v). rspamd_map_helper_insert_radix cl h k v) r kvs) \<and>
    (slot_keys (foldl (\<lambda>h (k, v). rspamd_map_helper_insert_radix cl h k v) r kvs),
     hst (foldl (\<lambda>h (k, v). rspamd_map_helper_insert_radix cl h k v) r kvs)) =
      foldl fingerprint_step (slot_keys r, hst r) (map fst kvs)"
  using assms
proof (induction kvs arbitrary: r)
  case Nil
  then show ?case by simp
next
  case (Cons kv kvs)
  obtain k v where kv: "kv = (k, v)" by (cases kv)
  from insert_radix_effect [OF Cons.prems, of cl k v] Cons.IH [of "rspamd_map_helper_insert_radix cl r k v"]
  show ?case by (simp add: kv)
qed

lemma radix_inserts_fingerprint:
  "hst (radix_inserts cl t kvs) = snd (foldl fingerprint_step ([], []) (map fst kvs))"
proof -
  have ok: "keys_ok (rspamd_map_helper_new_radix t)"
    by (simp add: keys_ok_def rspamd_map_helper_new_radix_def)
  have e: "slot_keys (rspamd_map_helper_new_radix t) = []" "hst (rspamd_map_helper_new_radix t) = []"
    by (simp_all add: slot_keys_def rspamd_map_helper_new_radix_def)
  from radix_fold [OF ok, of cl kvs] have
    "(slot_keys (radix_inserts cl t kvs), hst (radix_inserts cl t kvs)) =
       foldl fingerprint_step ([], []) (map fst kvs)"
    by (simp add: radix_inserts_def e)
  then show ?thesis by (metis snd_conv)
qed

lemma insert_re_glob [simp]: "flag_glob (rspamd_map_helper_insert_re cl m k v) = flag_glob m"
  by (simp add: rspamd_map_helper_insert_re_def Let_def store_value_def kh_put_strdup_def
      split: option.splits prod.splits)

lemma insert_re_effect:
  assumes "keys_ok m"
  shows "keys_ok (rspamd_map_helper_insert_re cl m k v) \<and>
     (slot_keys (rspamd_map_helper_insert_re cl m k v), hst (rspamd_map_helper_insert_re cl m k v)) =
       (if compiles cl (flag_glob m) k then fingerprint_step (slot_keys m, hst m) k
        else (slot_keys m, hst m))"
proof (cases "compiles cl (flag_glob m) k")
  case False
  then show ?thesis using assms
    by (auto simp: compiles_def rspamd_map_helper_insert_re_def split: if_splits)
next
  case True
  then obtain re where re: "(if flag_glob m then rspamd_regexp_new cl (rspamd_str_regexp_escape cl k)
            else rspamd_regexp_new cl k) = Some re"
    by (auto simp: compiles_def)
  have "\<exists>u rs vs. rspamd_map_helper_insert_re cl m k v =
     (if u then (interned_insert m k v)\<lparr>flag_utf := True\<rparr> else interned_insert m k v)
       \<lparr>regexps := rs, re_values := vs\<rparr>"
    using re
    by (cases "kh_get m k")
       (auto simp add: rspamd_map_helper_insert_re_def interned_insert_def Let_def
         simp del: split_paired_Ex)
  then obtain u rs vs where e: "rspamd_map_helper_insert_re cl m k v =
     (if u then (interned_insert m k v)\<lparr>flag_utf := True\<rparr> else interned_insert m k v)
       \<lparr>regexps := rs, re_values := vs\<rparr>" by blast
  show ?thesis using interned_insert_effect [OF assms, of k v] True
    by (simp add: e)
qed

lemma regexp_fold:
  assumes "keys_ok m"
  shows "keys_ok (foldl (\<lambda>h (k, v). rspamd_map_helper_insert_re cl h k v) m kvs) \<and>
    (slot_keys (foldl (\<lambda>h (k, v). rspamd_map_helper_insert_re cl h k v) m kvs),
     hst (foldl (\<lambda>h (k, v). rspamd_map_helper_insert_re cl h k v) m kvs)) =
      foldl fingerprint_step (slot_keys m, hst m) (filter (compiles cl (flag_glob m)) (map fst kvs))"
  using assms
proof (induction kvs arbitrary: m)
  case Nil
  then show ?case by simp
next
  case (Cons kv kvs)
  obtain k v where kv: "kv = (k, v)" by (cases kv)
  from insert_re_effect [OF Cons.prems, of cl k v] Cons.IH [of "rspamd_map_helper_insert_re cl m k v"]
  show ?case by (simp add: kv)
qed

lemma regexp_inserts_fingerprint:
  "hst (regexp_inserts cl glob multiple kvs) =
     snd (foldl fingerprint_step ([], []) (filter (compiles cl glob) (map fst kvs)))"
proof -
  let ?m = "rspamd_map_helper_new_regexp glob multiple :: ('a, 'b) rspamd_regexp_map_helper"
  have ok: "keys_ok ?m"
    by (simp add: keys_ok_def rspamd_map_helper_new_regexp_def)
  have e: "slot_keys ?m = []" "hst ?m = []" "flag_glob ?m = glob"
    by (simp_all add: slot_keys_def rspamd_map_helper_new_regexp_def)
  from regexp_fold [OF ok, of cl kvs] have
    "(slot_keys (regexp_inserts cl glob multiple kvs), hst (regexp_inserts cl glob multiple kvs)) =
       foldl fingerprint_step ([], []) (filter (compiles cl glob) (map fst kvs))"
    by (simp add: regexp_inserts_def e)
  then show ?thesis by (metis snd_conv)
qed


lemma insert_hash_new_key:
  assumes ok: "keys_ok h" and new: "\<forall>s\<in>set (slot_keys h). \<not> rspamd_strcase_equal s k"
  shows "keys_ok (rspamd_map_helper_insert_hash h k v) \<and>
     slot_keys (rspamd_map_helper_insert_hash h k v) = slot_keys h @ [k] \<and>
     hst (rspamd_map_helper_insert_hash h k v) = hst h @ [k]"
proof -
  have n: "first_index (\<lambda>s. rspamd_strcase_equal s k) (slot_keys h) = None"
    using new by (simp add: first_index_None_iff)
  then have "rspamd_map_helper_insert_hash h k v = interned_insert h k v"
    by (simp add: rspamd_map_helper_insert_hash_def interned_insert_def kh_get_def)
  then show ?thesis using interned_insert_effect [OF ok, of k v] n
    by (simp add: fingerprint_step_def)
qed

lemma hash_fold_distinct:
  assumes "keys_ok h"
    and "distinct (map (map g_ascii_tolower) (slot_keys h @ map fst kvs))"
  shows "hst (foldl (\<lambda>h (k, v). rspamd_map_helper_insert_hash h k v) h kvs) = hst h @ map fst kvs"
  using assms
proof (induction kvs arbitrary: h)
  case Nil
  then show ?case by simp
next
  case (Cons kv kvs)
  obtain k v where kv: "kv = (k, v)" by (cases kv)
  have new: "\<forall>s\<in>set (slot_keys h). \<not> rspamd_strcase_equal s k"
  proof
    fix s assume "s \<in> set (slot_keys h)"
    then have "map g_ascii_tolower s \<in> map g_ascii_tolower ` set (slot_keys h)" by (rule imageI)
    moreover have "map g_ascii_tolower k \<notin> map g_ascii_tolower ` set (slot_keys h)"
      using Cons.prems(2) by (auto simp: kv)
    ultimately show "\<not> rspamd_strcase_equal s k"
      by (auto simp: rspamd_strcase_equal_def)
  qed
  note e = insert_hash_new_key [OF Cons.prems(1) new, of v]
  have d: "distinct (map (map g_ascii_tolower)
      (slot_keys (rspamd_map_helper_insert_hash h k v) @ map fst kvs))"
    using Cons.prems(2) e by (simp add: kv)
  from Cons.IH [OF _ d] e show ?case by (simp add: kv)
qed

lemma hash_inserts_fingerprint:
  assumes "distinct (map (map g_ascii_tolower) (map fst kvs))"
  shows "hst (hash_inserts kvs) = map fst kvs"
proof -
  have ok: "keys_ok rspamd_map_helper_new_hash"
    by (simp add: keys_ok_def rspamd_map_helper_new_hash_def)
  have e: "slot_keys rspamd_map_helper_new_hash = []" "hst rspamd_map_helper_new_hash = []"
    by (simp_all add: slot_keys_def rspamd_map_helper_new_hash_def)
  from hash_fold_distinct [OF ok, of kvs] assms show ?thesis
    by (simp add: hash_inserts_def e)
qed

text \<open>
  Claim C5, as amended. Two insertion sequences with the same ordered keys give the same
  digest at finalization, whatever the values, in a radix helper and in a regexp helper
  (same flags, same engine). In a hash helper they do when no key occurs twice in the
  sequence, compared without case: a repeated key is hashed again exactly when its value
  differs from the stored one.
\<close>

theorem digest_function_of_keys:
  assumes "map fst A = map fst B"
  shows "map_option snd (list_fin cl (Some (radix_inserts cl t A))) =
           map_option snd (list_fin cl (Some (radix_inserts cl t' B)))
    \<and> map_option snd (list_fin cl (Some (regexp_inserts cl glob multiple A))) =
           map_option snd (list_fin cl (Some (regexp_inserts cl glob multiple B)))
    \<and> (distinct (map (map g_ascii_tolower) (map fst A)) \<longrightarrow>
         map_option snd (list_fin cl (Some (hash_inserts A))) =
           map_option snd (list_fin cl (Some (hash_inserts B))))"
  using assms
  by (simp add: list_fin_def radix_inserts_fingerprint regexp_inserts_fingerprint
      hash_inserts_fingerprint)

lemma demo_digest_differs: "demo_digest [''foo''] \<noteq> demo_digest [''foo'', ''foo'']"
  by code_simp

lemma hash_inserts_same_value:
  "hash_inserts [(''foo'', ''a''), (''foo'', ''a'')] =
     \<lparr>pool_strs = [''foo''], pool_vals = [\<lparr>hits = 0, key_ptr = 0, value_bytes = ''a''\<rparr>],
      htb = [(0, 0)], hst = [''foo'']\<rparr>"
  by (simp add: hash_inserts_def rspamd_map_helper_insert_hash_def kh_get_def
      slot_keys_def rspamd_map_helper_new_hash_def store_value_def kh_put_strdup_def Let_def)

lemma hash_inserts_other_value:
  "hash_inserts [(''foo'', ''a''), (''foo'', ''b'')] =
     \<lparr>pool_strs = [''foo''],
      pool_vals = [\<lparr>hits = 0, key_ptr = 0, value_bytes = ''a''\<rparr>,
                   \<lparr>hits = 0, key_ptr = 0, value_bytes = ''b''\<rparr>],
      htb = [(0, 1)], hst = [''foo'', ''foo'']\<rparr>"
  by (simp add: hash_inserts_def rspamd_map_helper_insert_hash_def kh_get_def
      slot_keys_def rspamd_map_helper_new_hash_def store_value_def kh_put_strdup_def Let_def)

text \<open>
  The claim as written fails in the hash helper: inserting \<open>foo\<close> twice with the same
  value hashes the key once, with two different values twice. The two fingerprint states
  differ, and so do the digests of any hash that tells one \<open>foo\<close> from two.
\<close>

theorem digest_function_of_keys_counterexample:
  "map fst [(''foo'', ''a''), (''foo'', ''a'')] = map fst [(''foo'', ''a''), (''foo'', ''b'')]
   \<and> hst (hash_inserts [(''foo'', ''a''), (''foo'', ''a'')]) = [''foo'']
   \<and> hst (hash_inserts [(''foo'', ''a''), (''foo'', ''b'')]) = [''foo'', ''foo'']
   \<and> map_option snd (list_fin demo_collaborators (Some (hash_inserts [(''foo'', ''a''), (''foo'', ''a'')]))) \<noteq>
       map_option snd (list_fin demo_collaborators (Some (hash_inserts [(''foo'', ''a''), (''foo'', ''b'')])))"
  using demo_digest_differs
  by (simp add: hash_inserts_same_value hash_inserts_other_value list_fin_def demo_collaborators_def)

lemma distinct_foo_bar: "distinct (map (map g_ascii_tolower) [''foo'', ''bar''])"
  by code_simp

theorem digest_function_of_keys_witness:
  "map fst [(''foo'', ''a''), (''bar'', ''b'')] = map fst [(''foo'', ''x''), (''bar'', ''y'')]
   \<and> distinct (map (map g_ascii_tolower) (map fst [(''foo'', ''a''), (''bar'', ''b'')]))
   \<and> map_option snd (list_fin demo_collaborators
          (Some (radix_inserts demo_collaborators () [(''foo'', ''a''), (''bar'', ''b'')]))) =
       map_option snd (list_fin demo_collaborators
          (Some (radix_inserts demo_collaborators () [(''foo'', ''x''), (''bar'', ''y'')])))
   \<and> map_option snd (list_fin demo_collaborators
          (Some (regexp_inserts demo_collaborators False False [(''foo'', ''a''), (''bar'', ''b'')]))) =
       map_option snd (list_fin demo_collaborators
          (Some (regexp_inserts demo_collaborators False False [(''foo'', ''x''), (''bar'', ''y'')])))
   \<and> map_option snd (list_fin demo_collaborators (Some (hash_inserts [(''foo'', ''a''), (''bar'', ''b'')]))) =
       map_option snd (list_fin demo_collaborators (Some (hash_inserts [(''foo'', ''x''), (''bar'', ''y'')])))"
proof -
  have 1: "map fst [(''foo'', ''a''), (''bar'', ''b'')] = map fst [(''foo'', ''x''), (''bar'', ''y'')]"
    by simp
  have 2: "distinct (map (map g_ascii_tolower) (map fst [(''foo'', ''a''), (''bar'', ''b'')]))"
    using distinct_foo_bar by simp
  from digest_function_of_keys [OF 1, of demo_collaborators "()" "()" False False] 1 2
  show ?thesis by blast
qed

lemma foldl_handler_none:
  "re_values m = [] \<Longrightarrow> foldl rspamd_match_hs_multiple_handler (ar, m) ids = (ar, m)"
  by (induction ids) (simp_all add: rspamd_match_hs_multiple_handler_def)

lemma foldl_pcre_none:
  "\<forall>i\<in>set is. \<not> rspamd_regexp_search cl (rs ! i) inp raw \<Longrightarrow>
   foldl (pcre_step cl rs inp raw) acc is = acc"
  by (induction "is" arbitrary: acc) (auto simp: pcre_step_def split: prod.splits)

lemma match_all_never_empty:
  "fst (rspamd_match_regexp_map_all cl mo inp) \<noteq> Some []"
  by (simp add: rspamd_match_regexp_map_all_def Let_def split: option.splits prod.splits)

lemma match_all_guards:
  "mo = None \<or> regexps (the mo) = None \<or> inp = [] \<Longrightarrow>
   rspamd_match_regexp_map_all cl mo inp = (None, mo)"
  by (auto simp: rspamd_match_regexp_map_all_def split: option.splits)

lemma match_all_empty_rules:
  assumes "regexps m = Some []" and "re_values m = []"
  shows "rspamd_match_regexp_map_all cl (Some m) inp = (None, Some m)"
  using assms
  by (auto simp: rspamd_match_regexp_map_all_def Let_def foldl_handler_none
      split: option.splits prod.splits)

lemma match_all_no_hit:
  assumes rs: "regexps m = Some rs"
    and hs: "hs_db m = None \<or> (\<forall>db. hs_db m = Some db \<longrightarrow> fst (hs_scan cl db inp) = [])"
    and no: "\<forall>re\<in>set rs. \<forall>raw. \<not> rspamd_regexp_search cl re inp raw"
  shows "rspamd_match_regexp_map_all cl (Some m) inp = (None, Some m)"
proof -
  have f: "\<And>raw acc. foldl (pcre_step cl rs inp raw) acc [0..<length rs] = acc"
    using no by (intro foldl_pcre_none) simp
  show ?thesis using rs hs
    by (auto simp: rspamd_match_regexp_map_all_def Let_def f split: option.splits prod.splits)
qed

text \<open>
  Claim C8. \<open>rspamd_match_regexp_map_all\<close> never returns an empty array. It returns
  null and leaves the map, hence every hit counter, as it was when the map is null, when
  its array of expressions is null, when the input is empty, and when the rule set is empty
  (both parallel arrays empty). It returns null as well when nothing hits: the scan, if
  there is a database, reports no pattern and no expression matches the input.
\<close>

theorem match_all_null_not_empty:
  "fst (rspamd_match_regexp_map_all cl mo inp) \<noteq> Some []
   \<and> (mo = None \<or> regexps (the mo) = None \<or> inp = [] \<longrightarrow>
        rspamd_match_regexp_map_all cl mo inp = (None, mo))
   \<and> (\<forall>m. mo = Some m \<and> regexps m = Some [] \<and> re_values m = [] \<longrightarrow>
        rspamd_match_regexp_map_all cl mo inp = (None, mo))
   \<and> (\<forall>m rs. mo = Some m \<and> regexps m = Some rs
         \<and> (hs_db m = None \<or> (\<forall>db. hs_db m = Some db \<longrightarrow> fst (hs_scan cl db inp) = []))
         \<and> (\<forall>re\<in>set rs. \<forall>raw. \<not> rspamd_regexp_search cl re inp raw) \<longrightarrow>
        rspamd_match_regexp_map_all cl mo inp = (None, mo))"
  using match_all_never_empty [of cl mo inp] match_all_guards [of mo inp cl]
    match_all_empty_rules match_all_no_hit
  by blast


lemma demo_regexp_eq:
  "demo_regexp = \<lparr>pool_strs = [''abc''],
      pool_vals = [\<lparr>hits = 0, key_ptr = 0, value_bytes = ''v''\<rparr>],
      htb = [(0, 0)], hst = [''abc''], regexps = Some [''abc''], re_values = [0],
      flag_glob = False, flag_multiple = False, flag_utf = False, hs_db = None,
      hs_scratch = False\<rparr>"
  by (simp add: demo_regexp_def regexp_inserts_def rspamd_map_helper_insert_re_def
      rspamd_map_helper_new_regexp_def demo_collaborators_def kh_get_def slot_keys_def
      store_value_def kh_put_strdup_def Let_def)

lemma match_all_hit_example:
  "rspamd_match_regexp_map_all demo_collaborators (Some demo_regexp) ''abc'' =
     (Some [''v''],
      Some (demo_regexp\<lparr>pool_vals := [\<lparr>hits = 1, key_ptr = 0, value_bytes = ''v''\<rparr>]\<rparr>))"
  by (simp add: demo_regexp_eq rspamd_match_regexp_map_all_def pcre_step_def bump_hits_def
      demo_collaborators_def Let_def)

theorem match_all_null_not_empty_witness:
  "regexps demo_regexp = Some [''abc''] \<and> hs_db demo_regexp = None
   \<and> \<not> rspamd_regexp_search demo_collaborators ''abc'' ''xyz'' True
   \<and> \<not> rspamd_regexp_search demo_collaborators ''abc'' ''xyz'' False
   \<and> rspamd_match_regexp_map_all demo_collaborators (Some demo_regexp) ''xyz'' = (None, Some demo_regexp)
   \<and> rspamd_match_regexp_map_all demo_collaborators (Some demo_regexp) [] = (None, Some demo_regexp)
   \<and> rspamd_match_regexp_map_all demo_collaborators
        (Some (rspamd_map_helper_new_regexp False False)) ''xyz'' =
        (None, Some (rspamd_map_helper_new_regexp False False))"
proof -
  have 1: "regexps demo_regexp = Some [''abc'']" "hs_db demo_regexp = None"
    by (simp_all add: demo_regexp_eq)
  have 2: "\<forall>re\<in>set [''abc'']. \<forall>raw. \<not> rspamd_regexp_search demo_collaborators re ''xyz'' raw"
    by (simp add: demo_collaborators_def)
  have 3: "regexps (rspamd_map_helper_new_regexp False False :: (string, unit) rspamd_regexp_map_helper) = Some []"
    "re_values (rspamd_map_helper_new_regexp False False :: (string, unit) rspamd_regexp_map_helper) = []"
    by (simp_all add: rspamd_map_helper_new_regexp_def)
  from match_all_null_not_empty [of demo_collaborators "Some demo_regexp" "''xyz''"] 1 2
  have a: "rspamd_match_regexp_map_all demo_collaborators (Some demo_regexp) ''xyz'' = (None, Some demo_regexp)"
    by blast
  from match_all_null_not_empty [of demo_collaborators "Some demo_regexp" "[]"]
  have b: "rspamd_match_regexp_map_all demo_collaborators (Some demo_regexp) [] = (None, Some demo_regexp)"
    by blast
  from match_all_null_not_empty [of demo_collaborators
      "Some (rspamd_map_helper_new_regexp False False)" "''xyz''"] 3
  have c: "rspamd_match_regexp_map_all demo_collaborators
        (Some (rspamd_map_helper_new_regexp False False)) ''xyz'' =
        (None, Some (rspamd_map_helper_new_regexp False False))"
    by blast
  have 4: "\<not> rspamd_regexp_search demo_collaborators ''abc'' ''xyz'' True"
    "\<not> rspamd_regexp_search demo_collaborators ''abc'' ''xyz'' False"
    by (simp_all add: demo_collaborators_def)
  from 1 4 a b c show ?thesis by blast
qed

section \<open>Properties of the parser\<close>

text \<open>
  Claim C3. Fed in one call with \<open>final\<close> set, the line \<open>foo bar\<close> with its line feed
  makes one insertion, of \<open>foo\<close> with \<open>bar\<close>. Fed byte by byte it makes none, whether
  the caller carries the tail from the returned pointer or not: the state is kept between
  the calls, but the stored key is a variable of one call and is null again in the next,
  so \<open>map_read_value\<close> drops the line; and without the tail the start of the key is
  lost as well. The last two equations show the loss on two calls of the parser alone: the
  first, on \<open>foo b\<close>, returns the offset of the value and leaves the state
  \<open>map_read_value\<close>; the second, on the tail and the rest of the line, inserts nothing.
\<close>

theorem parse_bytewise_differs:
  "feed_whole record_insert ''1'' (''foo bar'' @ [CHR 0x0A]) start_data =
     Inr \<lparr>state = map_skip_spaces_before_key, cur_data = [(''foo'', ''bar'')]\<rparr>
   \<and> feed_bytewise record_insert ''1'' [] (''foo bar'' @ [CHR 0x0A]) start_data =
     Inr \<lparr>state = map_skip_spaces_before_key, cur_data = []\<rparr>
   \<and> feed_bytewise_no_tail record_insert ''1'' (''foo bar'' @ [CHR 0x0A]) start_data =
     Inr \<lparr>state = map_skip_spaces_before_key, cur_data = []\<rparr>
   \<and> rspamd_parse_kv_list record_insert ''1'' ''foo b'' start_data False =
     Inr (4, \<lparr>state = map_read_value, cur_data = []\<rparr>)
   \<and> rspamd_parse_kv_list record_insert ''1'' (''bar'' @ [CHR 0x0A])
       \<lparr>state = map_read_value, cur_data = []\<rparr> True =
     Inr (0, \<lparr>state = map_skip_spaces_before_key, cur_data = []\<rparr>)"
  by code_simp

lemma hash_char [simp]:
  "\<not> is_eol CHR ''#''" "\<not> g_ascii_isspace CHR ''#''"
  by (simp_all add: is_eol_def g_ascii_isspace_def)

lemma hash_quoted_step:
  assumes "in_quotes (state (kv_data L))" and "chunk ! kv_p L = CHR ''#''"
  shows "kv_step ifunc dv chunk L = Inr (set_state map_read_key_quoted (advance L))"
  using assms
  by (auto simp: in_quotes_def kv_step_def Let_def set_state_def advance_def)

lemma hash_slashed_step:
  assumes "in_slashes (state (kv_data L))" and "chunk ! kv_p L = CHR ''#''"
  shows "kv_step ifunc dv chunk L = Inr (set_state map_read_key_slashed (advance L))"
  using assms
  by (auto simp: in_slashes_def kv_step_def Let_def set_state_def advance_def)

lemma comment_start_step:
  assumes "state (kv_data L) = map_read_comment_start" and "chunk ! kv_p L = CHR ''#''"
  shows "\<exists>L'. kv_steps ifunc dv chunk 1 L = Inr L' \<and> state (kv_data L') = map_skip_comment
     \<and> kv_p L' = kv_p L + 1"
  using assms by (simp add: kv_step_def Let_def set_state_def advance_def)

lemma skip_comment_step:
  assumes "state (kv_data L) = map_skip_comment" and "chunk ! kv_p L = CHR ''#''"
  shows "\<exists>L'. kv_steps ifunc dv chunk 1 L = Inr L' \<and> state (kv_data L') = map_skip_comment
     \<and> kv_p L' = kv_p L + 1"
  using assms by (simp add: kv_step_def Let_def set_state_def advance_def)

lemma read_key_hash:
  assumes "state (kv_data L) = map_read_key" and "chunk ! kv_p L = CHR ''#''"
    and "kv_p L = kv_c L \<or> chunk ! (kv_p L - 1) \<noteq> CHR 0x5C"
  shows "\<exists>L'. kv_steps ifunc dv chunk 2 L = Inr L' \<and> state (kv_data L') = map_skip_comment
     \<and> kv_p L' = kv_p L + 1"
proof -
  obtain L1 where 1: "kv_step ifunc dv chunk L = Inr L1"
    "state (kv_data L1) = map_read_comment_start" "kv_p L1 = kv_p L"
    using assms
    by (auto simp: kv_step_def Let_def set_state_def insert_key_only_def split: prod.splits)
  from comment_start_step [OF 1(2), of chunk ifunc dv] assms(2) 1(3)
  obtain L' where "kv_steps ifunc dv chunk 1 L1 = Inr L'" "state (kv_data L') = map_skip_comment"
    "kv_p L' = kv_p L + 1" by auto
  then show ?thesis using 1(1) by (simp add: numeral_2_eq_2)
qed

lemma after_slash_hash:
  assumes "state (kv_data L) = map_read_key_after_slash" and "chunk ! kv_p L = CHR ''#''"
  shows "\<exists>L'. kv_steps ifunc dv chunk 2 L = Inr L' \<and> state (kv_data L') = map_skip_comment
     \<and> kv_p L' = kv_p L + 1"
proof -
  obtain L1 where 1: "kv_step ifunc dv chunk L = Inr L1"
    "state (kv_data L1) = map_read_comment_start" "kv_p L1 = kv_p L"
    using assms
    by (auto simp: kv_step_def Let_def set_state_def insert_key_only_def split: prod.splits)
  from comment_start_step [OF 1(2), of chunk ifunc dv] assms(2) 1(3)
  obtain L' where "kv_steps ifunc dv chunk 1 L1 = Inr L'" "state (kv_data L') = map_skip_comment"
    "kv_p L' = kv_p L + 1" by auto
  then show ?thesis using 1(1) by (simp add: numeral_2_eq_2)
qed

lemma read_value_hash:
  assumes "state (kv_data L) = map_read_value" and "chunk ! kv_p L = CHR ''#''"
  shows "\<exists>L'. kv_steps ifunc dv chunk 2 L = Inr L' \<and> state (kv_data L') = map_skip_comment
     \<and> kv_p L' = kv_p L + 1"
proof (cases "kv_key L")
  case None
  then obtain L1 where 1: "kv_step ifunc dv chunk L = Inr L1"
    "state (kv_data L1) = map_skip_comment" "kv_p L1 = kv_p L"
    using assms by (auto simp: kv_step_def Let_def set_state_def)
  from skip_comment_step [OF 1(2), of chunk ifunc dv] assms(2) 1(3)
  obtain L' where "kv_steps ifunc dv chunk 1 L1 = Inr L'" "state (kv_data L') = map_skip_comment"
    "kv_p L' = kv_p L + 1" by auto
  then show ?thesis using 1(1) by (simp add: numeral_2_eq_2)
next
  case (Some k)
  then obtain L1 where 1: "kv_step ifunc dv chunk L = Inr L1"
    "state (kv_data L1) = map_read_comment_start" "kv_p L1 = kv_p L"
    using assms
    by (auto simp: kv_step_def Let_def set_state_def insert_key_value_def split: prod.splits)
  from comment_start_step [OF 1(2), of chunk ifunc dv] assms(2) 1(3)
  obtain L' where "kv_steps ifunc dv chunk 1 L1 = Inr L'" "state (kv_data L') = map_skip_comment"
    "kv_p L' = kv_p L + 1" by auto
  then show ?thesis using 1(1) by (simp add: numeral_2_eq_2)
qed

lemma after_key_hash:
  assumes "state (kv_data L) = map_skip_spaces_after_key" and "chunk ! kv_p L = CHR ''#''"
  shows "\<exists>L'. kv_steps ifunc dv chunk 3 L = Inr L' \<and> state (kv_data L') = map_skip_comment
     \<and> kv_p L' = kv_p L + 1"
proof -
  obtain L1 where 1: "kv_step ifunc dv chunk L = Inr L1"
    "state (kv_data L1) = map_read_value" "kv_p L1 = kv_p L"
    using assms by (auto simp: kv_step_def Let_def set_state_def)
  from read_value_hash [OF 1(2), of chunk ifunc dv] assms(2) 1(3)
  obtain L' where "kv_steps ifunc dv chunk 2 L1 = Inr L'" "state (kv_data L') = map_skip_comment"
    "kv_p L' = kv_p L + 1" by auto
  then show ?thesis using 1(1) by (simp add: numeral_3_eq_3 numeral_2_eq_2)
qed

lemma before_key_hash:
  assumes "state (kv_data L) = map_skip_spaces_before_key" and "chunk ! kv_p L = CHR ''#''"
  shows "\<exists>L'. kv_steps ifunc dv chunk 3 L = Inr L' \<and> state (kv_data L') = map_skip_comment
     \<and> kv_p L' = kv_p L + 1"
proof -
  obtain L1 where 1: "kv_step ifunc dv chunk L = Inr L1"
    "state (kv_data L1) = map_read_key" "kv_p L1 = kv_p L" "kv_c L1 = kv_p L"
    using assms by (auto simp: kv_step_def Let_def set_state_def)
  from read_key_hash [OF 1(2), of chunk ifunc dv] assms(2) 1(3,4)
  obtain L' where "kv_steps ifunc dv chunk 2 L1 = Inr L'" "state (kv_data L') = map_skip_comment"
    "kv_p L' = kv_p L + 1" by auto
  then show ?thesis using 1(1) by (simp add: numeral_3_eq_3 numeral_2_eq_2)
qed

lemma eol_hash:
  assumes "state (kv_data L) = map_read_eol" and "chunk ! kv_p L = CHR ''#''"
  shows "\<exists>L'. kv_steps ifunc dv chunk 4 L = Inr L' \<and> state (kv_data L') = map_skip_comment
     \<and> kv_p L' = kv_p L + 1"
proof -
  obtain L1 where 1: "kv_step ifunc dv chunk L = Inr L1"
    "state (kv_data L1) = map_skip_spaces_before_key" "kv_p L1 = kv_p L"
    using assms by (auto simp: kv_step_def Let_def set_state_def)
  from before_key_hash [OF 1(2), of chunk ifunc dv] assms(2) 1(3)
  obtain L' where "kv_steps ifunc dv chunk 3 L1 = Inr L'" "state (kv_data L') = map_skip_comment"
    "kv_p L' = kv_p L + 1" by auto
  then show ?thesis using 1(1) by (simp add: numeral_eq_Suc)
qed

lemma hash_starts_comment:
  assumes q: "\<not> in_quotes (state (kv_data L))" and s: "\<not> in_slashes (state (kv_data L))"
    and h: "chunk ! kv_p L = CHR ''#''"
    and e: "state (kv_data L) = map_read_key \<longrightarrow>
              kv_p L = kv_c L \<or> chunk ! (kv_p L - 1) \<noteq> CHR 0x5C"
  shows "\<exists>n L'. n \<le> 4 \<and> kv_steps ifunc dv chunk n L = Inr L'
     \<and> state (kv_data L') = map_skip_comment \<and> kv_p L' = kv_p L + 1"
proof (cases "state (kv_data L)")
  case map_skip_spaces_before_key
  from before_key_hash [OF this h, of ifunc dv] show ?thesis by (intro exI [of _ 3]) simp
next
  case map_read_key
  with e have "kv_p L = kv_c L \<or> chunk ! (kv_p L - 1) \<noteq> CHR 0x5C" by simp
  from read_key_hash [OF map_read_key h this, of ifunc dv] show ?thesis by (intro exI [of _ 2]) simp
next
  case map_read_key_quoted
  then show ?thesis using q by (simp add: in_quotes_def)
next
  case map_read_key_slashed
  then show ?thesis using s by (simp add: in_slashes_def)
next
  case map_skip_spaces_after_key
  from after_key_hash [OF this h, of ifunc dv] show ?thesis by (intro exI [of _ 3]) simp
next
  case map_backslash_quoted
  then show ?thesis using q by (simp add: in_quotes_def)
next
  case map_backslash_slashed
  then show ?thesis using s by (simp add: in_slashes_def)
next
  case map_read_key_after_slash
  from after_slash_hash [OF this h, of ifunc dv] show ?thesis by (intro exI [of _ 2]) simp
next
  case map_read_value
  from read_value_hash [OF this h, of ifunc dv] show ?thesis by (intro exI [of _ 2]) simp
next
  case map_read_comment_start
  from comment_start_step [OF this h, of ifunc dv] show ?thesis by (intro exI [of _ 1]) simp
next
  case map_skip_comment
  from skip_comment_step [OF this h, of ifunc dv] show ?thesis by (intro exI [of _ 1]) simp
next
  case map_read_eol
  from eol_hash [OF this h, of ifunc dv] show ?thesis by (intro exI [of _ 4]) simp
qed


lemma rkq_run:
  assumes "state (kv_data L) = map_read_key_quoted"
    and "kv_p L + n \<le> length chunk"
    and "\<forall>i<n. chunk ! (kv_p L + i) \<noteq> CHR 0x22 \<and> chunk ! (kv_p L + i) \<noteq> CHR 0x5C"
  shows "kv_loop ifunc dv chunk L = kv_loop ifunc dv chunk (L\<lparr>kv_p := kv_p L + n\<rparr>)"
  using assms
proof (induction n arbitrary: L)
  case 0
  then show ?case by simp
next
  case (Suc n)
  have lt: "kv_p L < length chunk" using Suc.prems(2) by simp
  have ch: "chunk ! kv_p L \<noteq> CHR 0x22" "chunk ! kv_p L \<noteq> CHR 0x5C"
    using Suc.prems(3) by (metis add.right_neutral zero_less_Suc)+
  have st: "kv_step ifunc dv chunk L = Inr (advance L)"
    using Suc.prems(1) ch by (simp add: kv_step_def Let_def)
  have 1: "kv_loop ifunc dv chunk L = kv_loop ifunc dv chunk (advance L)"
    using lt st by (subst kv_loop.simps) simp
  have a: "state (kv_data (advance L)) = map_read_key_quoted"
    using Suc.prems(1) by (simp add: advance_def)
  have b: "kv_p (advance L) + n \<le> length chunk"
    using Suc.prems(2) by (simp add: advance_def)
  have c: "\<forall>i<n. chunk ! (kv_p (advance L) + i) \<noteq> CHR 0x22 \<and>
      chunk ! (kv_p (advance L) + i) \<noteq> CHR 0x5C"
  proof (intro allI impI)
    fix i assume "i < n"
    then have "Suc i < Suc n" by simp
    with Suc.prems(3) have "chunk ! (kv_p L + Suc i) \<noteq> CHR 0x22 \<and>
      chunk ! (kv_p L + Suc i) \<noteq> CHR 0x5C" by blast
    then show "chunk ! (kv_p (advance L) + i) \<noteq> CHR 0x22 \<and>
      chunk ! (kv_p (advance L) + i) \<noteq> CHR 0x5C" by (simp add: advance_def)
  qed
  from Suc.IH [OF a b c] 1 show ?case by (simp add: advance_def)
qed

lemma MAP_STORE_quoted:
  "MAP_STORE (q # body @ rest) (Suc 0) (Suc (length body)) =
     (Suc (length (takeWhile g_ascii_isspace body)),
      g_strstrip (takeWhile (\<lambda>ch. ch \<noteq> CHR 0x00) (dropWhile g_ascii_isspace body)))"
proof -
  let ?k = "length (takeWhile g_ascii_isspace body)"
  have k: "?k \<le> length body" by (rule length_takeWhile_le)
  have "take (length body - ?k) (drop ?k (body @ rest)) = drop ?k body"
    using k by simp
  then show ?thesis
    by (simp add: MAP_STORE_def rspamd_strlcpy_def Let_def dropWhile_eq_drop)
qed

lemma quoted_key_run:
  assumes body: "\<forall>ch\<in>set body. ch \<noteq> CHR 0x22 \<and> ch \<noteq> CHR 0x5C"
  shows "kv_loop ifunc dv (CHR 0x22 # body @ [CHR 0x22, CHR 0x0A])
           \<lparr>kv_data = \<lparr>state = map_skip_spaces_before_key, cur_data = d0\<rparr>,
            kv_p = 0, kv_c = 0, kv_key = None, line_number = 0\<rparr> =
         Inr \<lparr>kv_data = \<lparr>state = map_read_eol,
                  cur_data = ifunc d0 (g_strstrip (takeWhile (\<lambda>ch. ch \<noteq> CHR 0x00)
                                 (dropWhile g_ascii_isspace body))) dv\<rparr>,
              kv_p = length body + 3, kv_c = length body + 2, kv_key = None, line_number = 1\<rparr>"
proof -
  let ?chunk = "CHR 0x22 # body @ [CHR 0x22, CHR 0x0A]"
  let ?k = "g_strstrip (takeWhile (\<lambda>ch. ch \<noteq> CHR 0x00) (dropWhile g_ascii_isspace body))"
  let ?L0 = "\<lparr>kv_data = \<lparr>state = map_skip_spaces_before_key, cur_data = d0\<rparr>,
            kv_p = 0, kv_c = 0, kv_key = None, line_number = 0\<rparr>"
  let ?L1 = "\<lparr>kv_data = \<lparr>state = map_read_key_quoted, cur_data = d0\<rparr>,
            kv_p = Suc 0, kv_c = Suc 0, kv_key = None, line_number = 0\<rparr>"
  let ?L2 = "\<lparr>kv_data = \<lparr>state = map_read_key_quoted, cur_data = d0\<rparr>,
            kv_p = Suc (length body), kv_c = Suc 0, kv_key = None, line_number = 0\<rparr>"
  let ?L3 = "\<lparr>kv_data = \<lparr>state = map_skip_spaces_after_key, cur_data = d0\<rparr>,
            kv_p = Suc (Suc (length body)), kv_c = Suc (length (takeWhile g_ascii_isspace body)),
            kv_key = Some ?k, line_number = 0\<rparr>"
  let ?L4 = "\<lparr>kv_data = \<lparr>state = map_read_value, cur_data = d0\<rparr>,
            kv_p = Suc (Suc (length body)), kv_c = Suc (Suc (length body)),
            kv_key = Some ?k, line_number = 0\<rparr>"
  let ?L5 = "\<lparr>kv_data = \<lparr>state = map_read_eol, cur_data = ifunc d0 ?k dv\<rparr>,
            kv_p = Suc (Suc (length body)), kv_c = Suc (Suc (length body)),
            kv_key = None, line_number = 0\<rparr>"
  let ?L6 = "\<lparr>kv_data = \<lparr>state = map_read_eol, cur_data = ifunc d0 ?k dv\<rparr>,
            kv_p = Suc (Suc (Suc (length body))), kv_c = Suc (Suc (length body)),
            kv_key = None, line_number = 1\<rparr>"
  have q: "\<not> g_ascii_isspace CHR 0x22" "CHR 0x22 \<noteq> CHR 0x5C" "is_eol CHR 0x0A"
    "CHR 0x0A \<noteq> CHR '' ''" "CHR 0x0A \<noteq> CHR 0x09" "CHR 0x0A \<noteq> CHR ''#''"
    by (simp_all add: g_ascii_isspace_def is_eol_def)
  have n1: "?chunk ! Suc (length body) = CHR 0x22"
    by (simp add: nth_append)
  have n2: "?chunk ! Suc (Suc (length body)) = CHR 0x0A"
    by (simp add: nth_append)
  have n3: "(body @ [CHR 0x22, CHR 0x0A]) ! length body = CHR 0x22"
    "(body @ [CHR 0x22, CHR 0x0A]) ! Suc (length body) = CHR 0x0A"
    by (simp_all add: nth_append)
  have s1: "kv_loop ifunc dv ?chunk ?L0 = kv_loop ifunc dv ?chunk ?L1"
    by (subst kv_loop.simps) (simp add: kv_step_def Let_def set_state_def q)
  have run: "\<forall>i<length body. ?chunk ! (kv_p ?L1 + i) \<noteq> CHR 0x22 \<and> ?chunk ! (kv_p ?L1 + i) \<noteq> CHR 0x5C"
    using body by (simp add: nth_append)
  have s2: "kv_loop ifunc dv ?chunk ?L1 = kv_loop ifunc dv ?chunk ?L2"
    using rkq_run [of ?L1 "length body" ?chunk ifunc dv] run by simp
  have s3: "kv_loop ifunc dv ?chunk ?L2 = kv_loop ifunc dv ?chunk ?L3"
    by (subst kv_loop.simps)
       (simp add: kv_step_def Let_def set_state_def advance_def q n1 n3 MAP_STORE_quoted)
  have s4: "kv_loop ifunc dv ?chunk ?L3 = kv_loop ifunc dv ?chunk ?L4"
    by (subst kv_loop.simps) (simp add: kv_step_def Let_def set_state_def q n2 n3)
  have s5: "kv_loop ifunc dv ?chunk ?L4 = kv_loop ifunc dv ?chunk ?L5"
    by (subst kv_loop.simps)
       (simp add: kv_step_def Let_def set_state_def insert_key_value_def q n2 n3)
  have s6: "kv_loop ifunc dv ?chunk ?L5 = kv_loop ifunc dv ?chunk ?L6"
    by (subst kv_loop.simps) (simp add: kv_step_def Let_def advance_def q n2 n3)
  have s7: "kv_loop ifunc dv ?chunk ?L6 = Inr ?L6"
    by (subst kv_loop.simps) simp
  show ?thesis using s1 s2 s3 s4 s5 s6 s7 by (simp add: eval_nat_numeral)
qed

lemma quoted_key_literal:
  assumes body: "\<forall>ch\<in>set body. ch \<noteq> CHR 0x22 \<and> ch \<noteq> CHR 0x5C"
  shows "rspamd_parse_kv_list ifunc dv (CHR 0x22 # body @ [CHR 0x22, CHR 0x0A])
           \<lparr>state = map_skip_spaces_before_key, cur_data = d0\<rparr> fin =
         Inr (length body + 2,
              \<lparr>state = (if fin then map_skip_spaces_before_key else map_read_eol),
               cur_data = ifunc d0 (g_strstrip (takeWhile (\<lambda>ch. ch \<noteq> CHR 0x00)
                                 (dropWhile g_ascii_isspace body))) dv\<rparr>)"
  by (simp add: rspamd_parse_kv_list_def quoted_key_run [OF body] kv_final_def set_state_def eval_nat_numeral)


text \<open>
  Claim C9, as amended. At a comment sign inside a quoted key the round of the loop only
  moves on: the state is the quoted-key state, the start of the key, the stored key and the
  callback data are untouched, so the byte lies within the key; parsed as a whole, a quoted
  key without quote and backslash in it is inserted with every byte between the quotes,
  comment signs included (stripped of surrounding white space and cut at a zero byte, as
  every key is). The same holds inside the slashes of a slashed key. Anywhere else a
  comment sign, in \<open>map_read_key\<close> one that is first or not preceded by a backslash,
  brings the parser to \<open>map_skip_comment\<close> just behind it within four rounds.
\<close>

theorem hash_in_key:
  "(chunk ! kv_p L = CHR ''#'' \<and> in_quotes (state (kv_data L)) \<longrightarrow>
      kv_step ifunc dv chunk L = Inr (set_state map_read_key_quoted (advance L)))
   \<and> (chunk ! kv_p L = CHR ''#'' \<and> in_slashes (state (kv_data L)) \<longrightarrow>
      kv_step ifunc dv chunk L = Inr (set_state map_read_key_slashed (advance L)))
   \<and> (chunk ! kv_p L = CHR ''#'' \<and> \<not> in_quotes (state (kv_data L))
        \<and> \<not> in_slashes (state (kv_data L))
        \<and> (state (kv_data L) = map_read_key \<longrightarrow>
              kv_p L = kv_c L \<or> chunk ! (kv_p L - 1) \<noteq> CHR 0x5C) \<longrightarrow>
      (\<exists>n L'. n \<le> 4 \<and> kv_steps ifunc dv chunk n L = Inr L'
         \<and> state (kv_data L') = map_skip_comment \<and> kv_p L' = kv_p L + 1))
   \<and> ((\<forall>ch\<in>set body. ch \<noteq> CHR 0x22 \<and> ch \<noteq> CHR 0x5C) \<longrightarrow>
      rspamd_parse_kv_list ifunc dv (CHR 0x22 # body @ [CHR 0x22, CHR 0x0A])
           \<lparr>state = map_skip_spaces_before_key, cur_data = d0\<rparr> fin =
         Inr (length body + 2,
              \<lparr>state = (if fin then map_skip_spaces_before_key else map_read_eol),
               cur_data = ifunc d0 (g_strstrip (takeWhile (\<lambda>ch. ch \<noteq> CHR 0x00)
                                 (dropWhile g_ascii_isspace body))) dv\<rparr>))"
  using hash_quoted_step [of L chunk ifunc dv] hash_slashed_step [of L chunk ifunc dv]
    hash_starts_comment [of L chunk ifunc dv] quoted_key_literal [of body ifunc dv d0 fin]
  by blast

lemma demo_key: "g_strstrip (takeWhile (\<lambda>ch. ch \<noteq> CHR 0x00) (dropWhile g_ascii_isspace ''a#b'')) = ''a#b''"
  by code_simp

theorem hash_in_key_witness:
  "demo_chunk ! kv_p (demo_vars map_read_key_quoted 2) = CHR ''#''
   \<and> in_quotes (state (kv_data (demo_vars map_read_key_quoted 2)))
   \<and> kv_step record_insert ''1'' demo_chunk (demo_vars map_read_key_quoted 2) =
        Inr (demo_vars map_read_key_quoted 3)
   \<and> rspamd_parse_kv_list record_insert ''1'' demo_chunk start_data True =
        Inr (5, \<lparr>state = map_skip_spaces_before_key, cur_data = [(''a#b'', ''1'')]\<rparr>)
   \<and> \<not> in_quotes (state (kv_data (demo_vars map_read_key 2)))
   \<and> \<not> in_slashes (state (kv_data (demo_vars map_read_key 2)))
   \<and> demo_chunk ! (kv_p (demo_vars map_read_key 2) - 1) \<noteq> CHR 0x5C
   \<and> (\<exists>n L'. n \<le> 4 \<and> kv_steps record_insert ''1'' demo_chunk n (demo_vars map_read_key 2) = Inr L'
         \<and> state (kv_data L') = map_skip_comment \<and> kv_p L' = 3)"
proof -
  have 1: "demo_chunk ! kv_p (demo_vars map_read_key_quoted 2) = CHR ''#''"
    "in_quotes (state (kv_data (demo_vars map_read_key_quoted 2)))"
    by (simp_all add: demo_chunk_def demo_vars_def in_quotes_def)
  have 2: "\<forall>ch\<in>set ''a#b''. ch \<noteq> CHR 0x22 \<and> ch \<noteq> CHR 0x5C" by simp
  have 3: "demo_chunk ! kv_p (demo_vars map_read_key 2) = CHR ''#''"
    "\<not> in_quotes (state (kv_data (demo_vars map_read_key 2)))"
    "\<not> in_slashes (state (kv_data (demo_vars map_read_key 2)))"
    "demo_chunk ! (kv_p (demo_vars map_read_key 2) - 1) \<noteq> CHR 0x5C"
    by (simp_all add: demo_chunk_def demo_vars_def in_quotes_def in_slashes_def)
  note t = hash_in_key [of demo_chunk "demo_vars map_read_key_quoted 2" record_insert "''1''"
      "''a#b''" "[]" True]
  from t 1 have a0: "kv_step record_insert ''1'' demo_chunk (demo_vars map_read_key_quoted 2) =
      Inr (set_state map_read_key_quoted (advance (demo_vars map_read_key_quoted 2)))"
    by blast
  then have a: "kv_step record_insert ''1'' demo_chunk (demo_vars map_read_key_quoted 2) =
        Inr (demo_vars map_read_key_quoted 3)"
    by (simp add: demo_vars_def set_state_def advance_def)
  from t 2 have "rspamd_parse_kv_list record_insert ''1'' (CHR 0x22 # ''a#b'' @ [CHR 0x22, CHR 0x0A])
           \<lparr>state = map_skip_spaces_before_key, cur_data = []\<rparr> True =
         Inr (length ''a#b'' + 2,
              \<lparr>state = (if True then map_skip_spaces_before_key else map_read_eol),
               cur_data = record_insert [] (g_strstrip (takeWhile (\<lambda>ch. ch \<noteq> CHR 0x00)
                                 (dropWhile g_ascii_isspace ''a#b''))) ''1''\<rparr>)"
    by blast
  then have b: "rspamd_parse_kv_list record_insert ''1'' demo_chunk start_data True =
        Inr (5, \<lparr>state = map_skip_spaces_before_key, cur_data = [(''a#b'', ''1'')]\<rparr>)"
    unfolding demo_key by (simp add: demo_chunk_def start_data_def record_insert_def)
  from hash_in_key [of demo_chunk "demo_vars map_read_key 2" record_insert "''1''" "''a#b''" "[]" True] 3
  have c: "\<exists>n L'. n \<le> 4 \<and> kv_steps record_insert ''1'' demo_chunk n (demo_vars map_read_key 2) = Inr L'
         \<and> state (kv_data L') = map_skip_comment \<and> kv_p L' = 3"
    by (simp add: demo_vars_def)
  from 1 3 a b c show ?thesis by blast
qed

text \<open>
  The claim as written fails outside quotes in one place: between the slashes of a slashed
  key the comment sign is kept, and the key \<open>/a#b/\<close> is inserted whole.
\<close>

theorem hash_in_key_counterexample:
  "slashed_chunk ! kv_p (demo_vars map_read_key_slashed 2) = CHR ''#''
   \<and> \<not> in_quotes (state (kv_data (demo_vars map_read_key_slashed 2)))
   \<and> kv_step record_insert ''1'' slashed_chunk (demo_vars map_read_key_slashed 2) =
        Inr (demo_vars map_read_key_slashed 3)
   \<and> feed_whole record_insert ''1'' slashed_chunk start_data =
        Inr \<lparr>state = map_skip_spaces_before_key, cur_data = [(''/a#b/'', ''v'')]\<rparr>"
  by code_simp

end
